theory Spec2Isabelle
  imports Complex_Main "HOL-Library.Sublist" "HOL-Library.AList"
begin

section \<open>JSON documents as Python sees them\<close>

text \<open>
  \<^verbatim>\<open>json.load\<close> builds Python values out of \<^verbatim>\<open>None\<close>, \<^verbatim>\<open>bool\<close>, numbers,
  \<^verbatim>\<open>str\<close>, \<^verbatim>\<open>list\<close> and \<^verbatim>\<open>dict\<close> with string keys. A dict keeps its insertion
  order, so it is an association list; Python never holds the same key twice. The
  transformation never looks inside a number, so the carrier of numbers (Python's
  \<^verbatim>\<open>int\<close> and \<^verbatim>\<open>float\<close>) is the type parameter \<open>'n\<close>.
\<close>

datatype 'n json =
    JNull
  | JBool bool
  | JNumber 'n
  | JString string
  | JArray "'n json list"
  | JObject "(string \<times> 'n json) list"

datatype error = TypeError | KeyError | ValueError | RecursionError | ZeroDivisionError

subsection \<open>The operators of Python that the transformation uses\<close>

text \<open>
  \<^verbatim>\<open>k in x\<close> for a string \<open>k\<close>: key membership on a dict, element equality on a list,
  substring on a string, and \<^verbatim>\<open>TypeError\<close> (argument is not iterable) on
  \<^verbatim>\<open>None\<close>, booleans and numbers.
\<close>

fun py_contains :: "string \<Rightarrow> 'n json \<Rightarrow> error + bool" where
  "py_contains k (JObject kvs) = Inr (k \<in> set (map fst kvs))"
| "py_contains k (JArray xs) = Inr (JString k \<in> set xs)"
| "py_contains k (JString s) = Inr (sublist k s)"
| "py_contains k JNull = Inl TypeError"
| "py_contains k (JBool b) = Inl TypeError"
| "py_contains k (JNumber n) = Inl TypeError"

text \<open>
  \<^verbatim>\<open>x[k]\<close> for a string \<open>k\<close>: the value under the key on a dict (\<^verbatim>\<open>KeyError\<close> when
  absent), \<^verbatim>\<open>TypeError\<close> on every other value (lists and strings take integer
  indices, the rest is not subscriptable).
\<close>

fun py_getitem :: "'n json \<Rightarrow> string \<Rightarrow> error + 'n json" where
  "py_getitem (JObject kvs) k =
     (case map_of kvs k of None \<Rightarrow> Inl KeyError | Some v \<Rightarrow> Inr v)"
| "py_getitem JNull k = Inl TypeError"
| "py_getitem (JBool b) k = Inl TypeError"
| "py_getitem (JNumber n) k = Inl TypeError"
| "py_getitem (JString s) k = Inl TypeError"
| "py_getitem (JArray xs) k = Inl TypeError"

text \<open>\<^verbatim>\<open>del x[k]\<close>: the entry leaves the dict, the others keep their order.\<close>

fun py_delitem :: "'n json \<Rightarrow> string \<Rightarrow> error + 'n json" where
  "py_delitem (JObject kvs) k =
     (if k \<in> set (map fst kvs) then Inr (JObject (AList.delete k kvs)) else Inl KeyError)"
| "py_delitem JNull k = Inl TypeError"
| "py_delitem (JBool b) k = Inl TypeError"
| "py_delitem (JNumber n) k = Inl TypeError"
| "py_delitem (JString s) k = Inl TypeError"
| "py_delitem (JArray xs) k = Inl TypeError"

text \<open>
  \<^verbatim>\<open>x[k] = v\<close>: an existing key keeps its place in the dict and takes the new value, a
  new key goes to the end.
\<close>

fun py_setitem :: "'n json \<Rightarrow> string \<Rightarrow> 'n json \<Rightarrow> error + 'n json" where
  "py_setitem (JObject kvs) k v = Inr (JObject (AList.update k v kvs))"
| "py_setitem JNull k v = Inl TypeError"
| "py_setitem (JBool b) k v = Inl TypeError"
| "py_setitem (JNumber n) k v = Inl TypeError"
| "py_setitem (JString s) k v = Inl TypeError"
| "py_setitem (JArray xs) k v = Inl TypeError"

section \<open>The schema filter\<close>

definition id_variant :: "'n json" where
  "id_variant =
     JArray [JObject [(''required'', JArray [JString ''id'', JString ''specVersion'', JString ''states''])]]"

definition id_description :: "'n json" where
  "id_description =
     JString ''Serverless Workflow specification - workflow schema (ID-based workflows only)''"

text \<open>
  The three gated edits of \<^verbatim>\<open>filter_schema_for_id_workflows\<close>, in the order of the
  source. The condition of the first one is \<^verbatim>\<open>"properties" in d and "key" in
  d["properties"]\<close>: the second operand is evaluated only when the first holds.
\<close>

definition remove_key_property :: "'n json \<Rightarrow> error + 'n json" where
  "remove_key_property filtered_schema =
     (case py_contains ''properties'' filtered_schema of
        Inl e \<Rightarrow> Inl e
      | Inr False \<Rightarrow> Inr filtered_schema
      | Inr True \<Rightarrow>
          (case py_getitem filtered_schema ''properties'' of
             Inl e \<Rightarrow> Inl e
           | Inr props \<Rightarrow>
               (case py_contains ''key'' props of
                  Inl e \<Rightarrow> Inl e
                | Inr False \<Rightarrow> Inr filtered_schema
                | Inr True \<Rightarrow>
                    (case py_delitem props ''key'' of
                       Inl e \<Rightarrow> Inl e
                     | Inr props' \<Rightarrow> py_setitem filtered_schema ''properties'' props'))))"

definition narrow_oneOf :: "'n json \<Rightarrow> error + 'n json" where
  "narrow_oneOf filtered_schema =
     (case py_contains ''oneOf'' filtered_schema of
        Inl e \<Rightarrow> Inl e
      | Inr False \<Rightarrow> Inr filtered_schema
      | Inr True \<Rightarrow> py_setitem filtered_schema ''oneOf'' id_variant)"

definition update_description :: "'n json \<Rightarrow> error + 'n json" where
  "update_description filtered_schema =
     (case py_contains ''description'' filtered_schema of
        Inl e \<Rightarrow> Inl e
      | Inr False \<Rightarrow> Inr filtered_schema
      | Inr True \<Rightarrow> py_setitem filtered_schema ''description'' id_description)"

text \<open>
  The function of documents that the source computes once its first statement has made
  the copy: \<open>schema_dict\<close> is the document that \<^verbatim>\<open>json.dumps(schema_dict)\<close> wrote, the
  copy \<^verbatim>\<open>json.loads\<close> reads back from it is that same tree, and an edit in place is the
  edited tree. The first statement can raise by itself, \<^verbatim>\<open>ValueError\<close> on a circular
  reference and \<^verbatim>\<open>RecursionError\<close> on a document nested past the interpreter's limit;
  that is not part of this function. It is part of the model on Python's object store
  further down, \<open>filter_schema_for_id_workflows_heap\<close>, which makes the copy and the
  edits in place explicit. \<open>filter_on_store_refines\<close> shows that the call on the store
  returns what this function returns whenever the argument serialises to a schema
  document, and \<open>copy_raises_past_limit\<close> that it raises when the argument does not
  serialise.
\<close>

definition filter_schema_for_id_workflows :: "'n json \<Rightarrow> error + 'n json" where
  "filter_schema_for_id_workflows schema_dict =
     (case remove_key_property schema_dict of
        Inl e \<Rightarrow> Inl e
      | Inr s1 \<Rightarrow>
          (case narrow_oneOf s1 of
             Inl e \<Rightarrow> Inl e
           | Inr s2 \<Rightarrow> update_description s2))"

subsection \<open>Schema documents\<close>

text \<open>
  The data model of the specification: a schema document is rooted at an object whose
  \<open>properties\<close>, when present, is itself a mapping. \<open>member_of\<close> reads a key of the
  root.
\<close>

fun is_object :: "'n json \<Rightarrow> bool" where
  "is_object (JObject kvs) = True"
| "is_object JNull = False"
| "is_object (JBool b) = False"
| "is_object (JNumber n) = False"
| "is_object (JString s) = False"
| "is_object (JArray xs) = False"

fun member_of :: "'n json \<Rightarrow> string \<Rightarrow> 'n json option" where
  "member_of (JObject kvs) k = map_of kvs k"
| "member_of JNull k = None"
| "member_of (JBool b) k = None"
| "member_of (JNumber n) k = None"
| "member_of (JString s) k = None"
| "member_of (JArray xs) k = None"

definition schema_document :: "'n json \<Rightarrow> bool" where
  "schema_document d =
     (is_object d \<and> (case member_of d ''properties'' of None \<Rightarrow> True | Some p \<Rightarrow> is_object p))"

text \<open>The second and third edit on the entries of a root object, in closed form.\<close>

definition with_oneOf :: "(string \<times> 'n json) list \<Rightarrow> (string \<times> 'n json) list" where
  "with_oneOf kvs = (if map_of kvs ''oneOf'' = None then kvs else AList.update ''oneOf'' id_variant kvs)"

definition with_description :: "(string \<times> 'n json) list \<Rightarrow> (string \<times> 'n json) list" where
  "with_description kvs =
     (if map_of kvs ''description'' = None then kvs
      else AList.update ''description'' id_description kvs)"

section \<open>The filter on Python's object store\<close>

text \<open>
  Lists and dicts are mutable objects with an identity; \<^verbatim>\<open>del d[k]\<close> and
  \<^verbatim>\<open>d[k] = v\<close> change the object in place, for every holder of a reference to it. To
  say that the filter leaves its argument alone, the store is made explicit: a value is a
  scalar or a reference to an object, the store is the list of all objects, and the
  address of an object is its index. A new object goes to the end of the store.
\<close>

type_synonym addr = nat

datatype 'n pyval = VNone | VBool bool | VNumber 'n | VStr string | VRef addr

datatype 'n pyobj = PyList "'n pyval list" | PyDict "(string \<times> 'n pyval) list"

type_synonym 'n heap = "'n pyobj list"

text \<open>The results of a list of computations, or the first error among them.\<close>

fun collect :: "('e + 'a) list \<Rightarrow> 'e + 'a list" where
  "collect [] = Inr []"
| "collect (Inl e # rs) = Inl e"
| "collect (Inr x # rs) = (case collect rs of Inl e \<Rightarrow> Inl e | Inr xs \<Rightarrow> Inr (x # xs))"

text \<open>
  \<^verbatim>\<open>json.dumps\<close> walks the object graph from a value; the serialised text is
  represented by the value tree it denotes. The encoder keeps the containers on the
  current path (its \<^verbatim>\<open>markers\<close>, here \<open>ms\<close>) and raises \<^verbatim>\<open>ValueError\<close> on a
  circular reference; nesting deeper than the interpreter's recursion limit \<open>n\<close> raises
  \<^verbatim>\<open>RecursionError\<close>. A reference outside the store does not exist in Python and is
  answered with an error.
\<close>

fun json_dumps :: "nat \<Rightarrow> addr list \<Rightarrow> 'n heap \<Rightarrow> 'n pyval \<Rightarrow> error + 'n json" where
  "json_dumps n ms h VNone = Inr JNull"
| "json_dumps n ms h (VBool b) = Inr (JBool b)"
| "json_dumps n ms h (VNumber x) = Inr (JNumber x)"
| "json_dumps n ms h (VStr s) = Inr (JString s)"
| "json_dumps 0 ms h (VRef a) = (if a \<in> set ms then Inl ValueError else Inl RecursionError)"
| "json_dumps (Suc n) ms h (VRef a) =
     (if a \<in> set ms \<or> length h \<le> a then Inl ValueError
      else (case h ! a of
              PyList vs \<Rightarrow>
                (case collect (map (json_dumps n (a # ms) h) vs) of
                   Inl e \<Rightarrow> Inl e
                 | Inr xs \<Rightarrow> Inr (JArray xs))
            | PyDict es \<Rightarrow>
                (case collect (map (json_dumps n (a # ms) h) (map snd es)) of
                   Inl e \<Rightarrow> Inl e
                 | Inr xs \<Rightarrow> Inr (JObject (zip (map fst es) xs)))))"

text \<open>
  \<^verbatim>\<open>json.loads\<close> builds a new object for every array and object of the text, the
  members before the container that holds them.
\<close>

function json_loads :: "'n json \<Rightarrow> 'n heap \<Rightarrow> 'n heap \<times> 'n pyval"
  and loads_items :: "'n json list \<Rightarrow> 'n heap \<Rightarrow> 'n heap \<times> 'n pyval list" where
  "json_loads JNull h = (h, VNone)"
| "json_loads (JBool b) h = (h, VBool b)"
| "json_loads (JNumber x) h = (h, VNumber x)"
| "json_loads (JString s) h = (h, VStr s)"
| "json_loads (JArray xs) h =
     (case loads_items xs h of (h1, vs) \<Rightarrow> (h1 @ [PyList vs], VRef (length h1)))"
| "json_loads (JObject kvs) h =
     (case loads_items (map snd kvs) h of
        (h1, vs) \<Rightarrow> (h1 @ [PyDict (zip (map fst kvs) vs)], VRef (length h1)))"
| "loads_items [] h = (h, [])"
| "loads_items (x # xs) h =
     (case json_loads x h of
        (h1, v) \<Rightarrow> (case loads_items xs h1 of (h2, vs) \<Rightarrow> (h2, v # vs)))"
  by pat_completeness auto

termination
proof -
  have le: "(\<Sum>x\<leftarrow>kvs. size (snd x)) \<le> sum_list (map (size_prod (\<lambda>x. 0) size) kvs)"
    for kvs :: "(string \<times> 'n json) list"
    by (induction kvs) auto
  show ?thesis
    by (relation "measure (\<lambda>x. case x of Inl (d, h) \<Rightarrow> size d | Inr (ds, h) \<Rightarrow> size_list size ds)")
       (auto simp: less_Suc_eq_le size_list_conv_sum_list comp_def le)
qed

definition alloc :: "'n pyobj \<Rightarrow> 'n heap \<Rightarrow> 'n heap \<times> 'n pyval" where
  "alloc obj h = (h @ [obj], VRef (length h))"

text \<open>
  The operators \<^verbatim>\<open>k in x\<close>, \<^verbatim>\<open>x[k]\<close>, \<^verbatim>\<open>del x[k]\<close> and \<^verbatim>\<open>x[k] = v\<close> on values in
  a store: as on value trees, except that the last two write the object at the address
  of \<open>x\<close>.
\<close>

fun hp_contains :: "'n heap \<Rightarrow> string \<Rightarrow> 'n pyval \<Rightarrow> error + bool" where
  "hp_contains h k (VRef a) =
     (if length h \<le> a then Inl ValueError
      else (case h ! a of
              PyDict es \<Rightarrow> Inr (k \<in> set (map fst es))
            | PyList vs \<Rightarrow> Inr (VStr k \<in> set vs)))"
| "hp_contains h k (VStr s) = Inr (sublist k s)"
| "hp_contains h k VNone = Inl TypeError"
| "hp_contains h k (VBool b) = Inl TypeError"
| "hp_contains h k (VNumber n) = Inl TypeError"

fun hp_getitem :: "'n heap \<Rightarrow> 'n pyval \<Rightarrow> string \<Rightarrow> error + 'n pyval" where
  "hp_getitem h (VRef a) k =
     (if length h \<le> a then Inl ValueError
      else (case h ! a of
              PyDict es \<Rightarrow> (case map_of es k of None \<Rightarrow> Inl KeyError | Some v \<Rightarrow> Inr v)
            | PyList vs \<Rightarrow> Inl TypeError))"
| "hp_getitem h (VStr s) k = Inl TypeError"
| "hp_getitem h VNone k = Inl TypeError"
| "hp_getitem h (VBool b) k = Inl TypeError"
| "hp_getitem h (VNumber n) k = Inl TypeError"

fun hp_delitem :: "'n heap \<Rightarrow> 'n pyval \<Rightarrow> string \<Rightarrow> error + 'n heap" where
  "hp_delitem h (VRef a) k =
     (if length h \<le> a then Inl ValueError
      else (case h ! a of
              PyDict es \<Rightarrow>
                (if k \<in> set (map fst es) then Inr (h[a := PyDict (AList.delete k es)])
                 else Inl KeyError)
            | PyList vs \<Rightarrow> Inl TypeError))"
| "hp_delitem h (VStr s) k = Inl TypeError"
| "hp_delitem h VNone k = Inl TypeError"
| "hp_delitem h (VBool b) k = Inl TypeError"
| "hp_delitem h (VNumber n) k = Inl TypeError"

fun hp_setitem :: "'n heap \<Rightarrow> 'n pyval \<Rightarrow> string \<Rightarrow> 'n pyval \<Rightarrow> error + 'n heap" where
  "hp_setitem h (VRef a) k v =
     (if length h \<le> a then Inl ValueError
      else (case h ! a of
              PyDict es \<Rightarrow> Inr (h[a := PyDict (AList.update k v es)])
            | PyList vs \<Rightarrow> Inl TypeError))"
| "hp_setitem h (VStr s) k v = Inl TypeError"
| "hp_setitem h VNone k v = Inl TypeError"
| "hp_setitem h (VBool b) k v = Inl TypeError"
| "hp_setitem h (VNumber n) k v = Inl TypeError"

text \<open>
  The three edits of the source on the copy \<^verbatim>\<open>filtered_schema\<close>. The list display
  \<^verbatim>\<open>[{"required": ["id", "specVersion", "states"]}]\<close> allocates the inner list, then
  the dict, then the outer list.
\<close>

definition remove_key_property_heap :: "'n heap \<Rightarrow> 'n pyval \<Rightarrow> error + 'n heap" where
  "remove_key_property_heap h filtered_schema =
     (case hp_contains h ''properties'' filtered_schema of
        Inl e \<Rightarrow> Inl e
      | Inr False \<Rightarrow> Inr h
      | Inr True \<Rightarrow>
          (case hp_getitem h filtered_schema ''properties'' of
             Inl e \<Rightarrow> Inl e
           | Inr props \<Rightarrow>
               (case hp_contains h ''key'' props of
                  Inl e \<Rightarrow> Inl e
                | Inr False \<Rightarrow> Inr h
                | Inr True \<Rightarrow> hp_delitem h props ''key'')))"

definition narrow_oneOf_heap :: "'n heap \<Rightarrow> 'n pyval \<Rightarrow> error + 'n heap" where
  "narrow_oneOf_heap h filtered_schema =
     (case hp_contains h ''oneOf'' filtered_schema of
        Inl e \<Rightarrow> Inl e
      | Inr False \<Rightarrow> Inr h
      | Inr True \<Rightarrow>
          (case alloc (PyList [VStr ''id'', VStr ''specVersion'', VStr ''states'']) h of
             (h1, required) \<Rightarrow>
               (case alloc (PyDict [(''required'', required)]) h1 of
                  (h2, variant) \<Rightarrow>
                    (case alloc (PyList [variant]) h2 of
                       (h3, variants) \<Rightarrow> hp_setitem h3 filtered_schema ''oneOf'' variants))))"

definition update_description_heap :: "'n heap \<Rightarrow> 'n pyval \<Rightarrow> error + 'n heap" where
  "update_description_heap h filtered_schema =
     (case hp_contains h ''description'' filtered_schema of
        Inl e \<Rightarrow> Inl e
      | Inr False \<Rightarrow> Inr h
      | Inr True \<Rightarrow>
          hp_setitem h filtered_schema ''description''
            (VStr ''Serverless Workflow specification - workflow schema (ID-based workflows only)''))"

text \<open>
  \<^verbatim>\<open>filter_schema_for_id_workflows\<close> on the store \<open>h\<close>: it returns the store after the
  call and the value it returns.
\<close>

definition filter_schema_for_id_workflows_heap ::
  "nat \<Rightarrow> 'n heap \<Rightarrow> 'n pyval \<Rightarrow> error + 'n heap \<times> 'n pyval" where
  "filter_schema_for_id_workflows_heap limit h schema_dict =
     (case json_dumps limit [] h schema_dict of
        Inl e \<Rightarrow> Inl e
      | Inr doc \<Rightarrow>
          (case json_loads doc h of
             (h0, filtered_schema) \<Rightarrow>
               (case remove_key_property_heap h0 filtered_schema of
                  Inl e \<Rightarrow> Inl e
                | Inr h1 \<Rightarrow>
                    (case narrow_oneOf_heap h1 filtered_schema of
                       Inl e \<Rightarrow> Inl e
                     | Inr h2 \<Rightarrow>
                         (case update_description_heap h2 filtered_schema of
                            Inl e \<Rightarrow> Inl e
                          | Inr h3 \<Rightarrow> Inr (h3, filtered_schema))))))"

text \<open>
  A value is fresh above \<open>n\<close> when it is a scalar or refers to an address from \<open>n\<close> on;
  an object is fresh when all the values it holds are. The store \<open>h'\<close> extends \<open>h\<close> when
  it starts with the objects of \<open>h\<close>, unchanged, and the objects after them refer to
  none of the objects of \<open>h\<close>.
\<close>

fun fresh_val :: "nat \<Rightarrow> 'n pyval \<Rightarrow> bool" where
  "fresh_val n (VRef a) = (n \<le> a)"
| "fresh_val n VNone = True"
| "fresh_val n (VBool b) = True"
| "fresh_val n (VNumber x) = True"
| "fresh_val n (VStr s) = True"

fun obj_values :: "'n pyobj \<Rightarrow> 'n pyval list" where
  "obj_values (PyList vs) = vs"
| "obj_values (PyDict es) = map snd es"

definition fresh_obj :: "nat \<Rightarrow> 'n pyobj \<Rightarrow> bool" where
  "fresh_obj n obj = list_all (fresh_val n) (obj_values obj)"

definition store_extension :: "'n heap \<Rightarrow> 'n heap \<Rightarrow> bool" where
  "store_extension h h' =
     (take (length h) h' = h \<and> list_all (fresh_obj (length h)) (drop (length h) h'))"

text \<open>
  What relates the two models. \<open>nesting\<close> is the depth of containers of a document.
  An entry of a dict in the store stands for an entry of an object when the keys are
  equal and the value serialises, by \<open>g\<close>, to the member; the dict at the address \<open>a\<close>
  of the store \<open>H\<close> stands for the object with the entries \<open>kvs\<close> when its entries
  stand for them, in order.
\<close>

fun nesting :: "'n json \<Rightarrow> nat" where
  "nesting JNull = 0"
| "nesting (JBool b) = 0"
| "nesting (JNumber x) = 0"
| "nesting (JString s) = 0"
| "nesting (JArray xs) = Suc (fold max (map nesting xs) 0)"
| "nesting (JObject kvs) = Suc (fold max (map (\<lambda>e. nesting (snd e)) kvs) 0)"

definition entry_rel ::
  "('n pyval \<Rightarrow> error + 'n json) \<Rightarrow> string \<times> 'n pyval \<Rightarrow> string \<times> 'n json \<Rightarrow> bool" where
  "entry_rel g e e' = (fst e = fst e' \<and> g (snd e) = Inr (snd e'))"

definition root_rel :: "nat \<Rightarrow> addr \<Rightarrow> 'n heap \<Rightarrow> (string \<times> 'n json) list \<Rightarrow> bool" where
  "root_rel n a H kvs =
     (a < length H \<and>
      (case H ! a of
         PyDict es \<Rightarrow> list_all2 (entry_rel (json_dumps n [a] H)) es kvs
       | PyList vs \<Rightarrow> False))"

section \<open>The reduction statistics\<close>

text \<open>
  \<^verbatim>\<open>len(text) // 4\<close> on Python's unbounded integers. \<^verbatim>\<open>len\<close> counts the characters of
  the string, one list element each; the two serialisations the statistics are computed
  from are written by \<^verbatim>\<open>json.dumps\<close> with its default \<^verbatim>\<open>ensure_ascii\<close>, so they are
  ASCII.
\<close>

definition count_tokens_estimate :: "string \<Rightarrow> int" where
  "count_tokens_estimate text = int (length text) div 4"

text \<open>
  The percentages are Python floats. Floating-point arithmetic is not interpreted here:
  the true division of two ints and the product of a float with an int are the
  parameters \<open>fdiv\<close> and \<open>fmul\<close>. What is modelled is which operation runs on which
  operands, and that \<^verbatim>\<open>a / b\<close> raises \<^verbatim>\<open>ZeroDivisionError\<close> when \<open>b\<close> is 0.
\<close>

datatype 'f pynum = PyInt int | PyFloat 'f

definition py_truediv :: "(int \<Rightarrow> int \<Rightarrow> 'f) \<Rightarrow> int \<Rightarrow> int \<Rightarrow> error + 'f" where
  "py_truediv fdiv a b = (if b = 0 then Inl ZeroDivisionError else Inr (fdiv a b))"

text \<open>\<^verbatim>\<open>(part / whole) * 100 if whole > 0 else 0\<close>, the expression of lines 109 and 115.\<close>

definition percent_if_positive ::
  "(int \<Rightarrow> int \<Rightarrow> 'f) \<Rightarrow> ('f \<Rightarrow> int \<Rightarrow> 'f) \<Rightarrow> int \<Rightarrow> int \<Rightarrow> error + 'f pynum" where
  "percent_if_positive fdiv fmul part whole =
     (if 0 < whole then
        (case py_truediv fdiv part whole of
           Inl e \<Rightarrow> Inl e
         | Inr q \<Rightarrow> Inr (PyFloat (fmul q 100)))
      else Inr (PyInt 0))"

record 'f reduction_report =
  original_tokens :: int
  filtered_tokens :: int
  reduction :: int
  reduction_percent :: "'f pynum"
  original_size :: int
  filtered_size :: int
  size_reduction :: int
  size_reduction_percent :: "'f pynum"

text \<open>
  Lines 106 to 115 of \<^verbatim>\<open>get_filtered_schema_rules\<close>, as a function of the two compact
  serialisations \<^verbatim>\<open>original_json\<close> and \<^verbatim>\<open>filtered_json\<close>.
\<close>

definition reduction_statistics ::
  "(int \<Rightarrow> int \<Rightarrow> 'f) \<Rightarrow> ('f \<Rightarrow> int \<Rightarrow> 'f) \<Rightarrow> string \<Rightarrow> string \<Rightarrow> error + 'f reduction_report" where
  "reduction_statistics fdiv fmul original_json filtered_json =
     (let original_tokens = count_tokens_estimate original_json;
          filtered_tokens = count_tokens_estimate filtered_json;
          reduction = original_tokens - filtered_tokens
      in case percent_if_positive fdiv fmul reduction original_tokens of
           Inl e \<Rightarrow> Inl e
         | Inr p \<Rightarrow>
             (let reduction_percent = p;
                  original_size = int (length original_json);
                  filtered_size = int (length filtered_json);
                  size_reduction = original_size - filtered_size
              in case percent_if_positive fdiv fmul size_reduction original_size of
                   Inl e \<Rightarrow> Inl e
                 | Inr q \<Rightarrow>
                     Inr \<lparr>original_tokens = original_tokens,
                          filtered_tokens = filtered_tokens,
                          reduction = reduction,
                          reduction_percent = reduction_percent,
                          original_size = original_size,
                          filtered_size = filtered_size,
                          size_reduction = size_reduction,
                          size_reduction_percent = q\<rparr>))"

section \<open>Properties\<close>

subsection \<open>Auxiliary facts\<close>

lemma is_objectE: "is_object d \<Longrightarrow> \<exists>kvs. d = JObject kvs"
  by (cases d) simp_all

lemma key_in_iff: "k \<in> set (map fst kvs) \<longleftrightarrow> map_of kvs k \<noteq> None"
  by (simp add: map_of_eq_None_iff)

lemma remove_key_property_absent:
  "map_of kvs ''properties'' = None \<Longrightarrow> remove_key_property (JObject kvs) = Inr (JObject kvs)"
  by (simp add: remove_key_property_def key_in_iff del: set_map)

lemma remove_key_property_no_key:
  "map_of kvs ''properties'' = Some (JObject ps) \<Longrightarrow> map_of ps ''key'' = None \<Longrightarrow>
   remove_key_property (JObject kvs) = Inr (JObject kvs)"
  by (simp add: remove_key_property_def key_in_iff del: set_map) 

lemma remove_key_property_key:
  "map_of kvs ''properties'' = Some (JObject ps) \<Longrightarrow> map_of ps ''key'' \<noteq> None \<Longrightarrow>
   remove_key_property (JObject kvs) =
     Inr (JObject (AList.update ''properties'' (JObject (AList.delete ''key'' ps)) kvs))"
  by (simp add: remove_key_property_def key_in_iff del: set_map)

lemma narrow_oneOf_object:
  "narrow_oneOf (JObject kvs) =
     Inr (JObject (if map_of kvs ''oneOf'' = None then kvs else AList.update ''oneOf'' id_variant kvs))"
  by (simp add: narrow_oneOf_def key_in_iff del: set_map)

lemma update_description_object:
  "update_description (JObject kvs) =
     Inr (JObject (if map_of kvs ''description'' = None then kvs
                   else AList.update ''description'' id_description kvs))"
  by (simp add: update_description_def key_in_iff del: set_map)



lemma filter_after_remove_key:
  "remove_key_property d = Inr (JObject kvs1) \<Longrightarrow>
   filter_schema_for_id_workflows d = Inr (JObject (with_description (with_oneOf kvs1)))"
  by (simp add: filter_schema_for_id_workflows_def narrow_oneOf_object update_description_object
      with_oneOf_def with_description_def)

text \<open>
  The three shapes of a schema document, with the result of the filter on each: no
  \<open>properties\<close>, \<open>properties\<close> without \<open>key\<close>, \<open>properties\<close> with \<open>key\<close>.
\<close>

lemma filter_schema_cases:
  assumes "schema_document d"
  obtains
    (no_properties) kvs where "d = JObject kvs" "map_of kvs ''properties'' = None"
      "filter_schema_for_id_workflows d = Inr (JObject (with_description (with_oneOf kvs)))"
  | (no_key) kvs ps where "d = JObject kvs" "map_of kvs ''properties'' = Some (JObject ps)"
      "map_of ps ''key'' = None"
      "filter_schema_for_id_workflows d = Inr (JObject (with_description (with_oneOf kvs)))"
  | (key) kvs ps where "d = JObject kvs" "map_of kvs ''properties'' = Some (JObject ps)"
      "map_of ps ''key'' \<noteq> None"
      "filter_schema_for_id_workflows d =
         Inr (JObject (with_description (with_oneOf
           (AList.update ''properties'' (JObject (AList.delete ''key'' ps)) kvs))))"
proof -
  from assms obtain kvs where d: "d = JObject kvs"
    by (auto simp: schema_document_def dest: is_objectE)
  show thesis
  proof (cases "map_of kvs ''properties''")
    case None
    then show thesis
      using d no_properties remove_key_property_absent filter_after_remove_key by blast
  next
    case (Some p)
    with assms d obtain ps where p: "p = JObject ps"
      by (auto simp: schema_document_def dest: is_objectE)
    show thesis
    proof (cases "map_of ps ''key'' = None")
      case True
      with Some p show thesis
        using d no_key remove_key_property_no_key filter_after_remove_key by blast
    next
      case False
      with Some p show thesis
        using d key remove_key_property_key filter_after_remove_key by blast
    qed
  qed
qed

lemma map_of_with_oneOf:
  "map_of (with_oneOf kvs) k =
     (if k = ''oneOf'' \<and> map_of kvs ''oneOf'' \<noteq> None then Some id_variant else map_of kvs k)"
  by (simp add: with_oneOf_def update_conv')

lemma map_of_with_description:
  "map_of (with_description kvs) k =
     (if k = ''description'' \<and> map_of kvs ''description'' \<noteq> None then Some id_description
      else map_of kvs k)"
  by (simp add: with_description_def update_conv')

lemma with_oneOf_fixed:
  "map_of kvs ''oneOf'' = None \<or> map_of kvs ''oneOf'' = Some id_variant \<Longrightarrow> with_oneOf kvs = kvs"
  by (auto simp: with_oneOf_def update_triv)

lemma with_description_fixed:
  "map_of kvs ''description'' = None \<or> map_of kvs ''description'' = Some id_description \<Longrightarrow>
   with_description kvs = kvs"
  by (auto simp: with_description_def update_triv)

lemma filter_fixed_point:
  assumes props: "map_of kvs ''properties'' = None \<or>
      (\<exists>ps. map_of kvs ''properties'' = Some (JObject ps) \<and> map_of ps ''key'' = None)"
    and oneOf: "map_of kvs ''oneOf'' = None \<or> map_of kvs ''oneOf'' = Some id_variant"
    and descr: "map_of kvs ''description'' = None \<or> map_of kvs ''description'' = Some id_description"
  shows "filter_schema_for_id_workflows (JObject kvs) = Inr (JObject kvs)"
proof -
  from props have "remove_key_property (JObject kvs) = Inr (JObject kvs)"
    by (auto simp: remove_key_property_absent remove_key_property_no_key)
  then have "filter_schema_for_id_workflows (JObject kvs) =
      Inr (JObject (with_description (with_oneOf kvs)))"
    by (rule filter_after_remove_key)
  with oneOf descr show ?thesis
    by (simp add: with_oneOf_fixed with_description_fixed)
qed

lemma update_nth_other:
  "i < length al \<Longrightarrow> fst (al ! i) \<noteq> k \<Longrightarrow> AList.update k v al ! i = al ! i"
proof (induction al arbitrary: i)
  case Nil
  then show ?case by simp
next
  case (Cons a al)
  then show ?case by (cases i) auto
qed

lemma update_keys_present:
  "map_of al k \<noteq> None \<Longrightarrow> map fst (AList.update k v al) = map fst al"
  by (simp add: update_keys key_in_iff del: set_map)

lemma with_oneOf_keys: "map fst (with_oneOf kvs) = map fst kvs"
  by (simp add: with_oneOf_def update_keys_present)

lemma with_description_keys: "map fst (with_description kvs) = map fst kvs"
  by (simp add: with_description_def update_keys_present)

lemma with_oneOf_nth:
  "i < length kvs \<Longrightarrow> fst (kvs ! i) \<noteq> ''oneOf'' \<Longrightarrow> with_oneOf kvs ! i = kvs ! i"
  by (simp add: with_oneOf_def update_nth_other)

lemma with_description_nth:
  "i < length kvs \<Longrightarrow> fst (kvs ! i) \<noteq> ''description'' \<Longrightarrow> with_description kvs ! i = kvs ! i"
  by (simp add: with_description_def update_nth_other)

lemma edited_nth:
  assumes "i < length kvs" "fst (kvs ! i) \<noteq> ''oneOf''" "fst (kvs ! i) \<noteq> ''description''"
  shows "with_description (with_oneOf kvs) ! i = kvs ! i"
proof -
  have len: "length (with_oneOf kvs) = length kvs"
    using with_oneOf_keys [of kvs] by (metis length_map)
  have "with_oneOf kvs ! i = kvs ! i"
    using assms by (simp add: with_oneOf_nth)
  with assms len show ?thesis
    by (simp add: with_description_nth)
qed

subsection \<open>Facts about the store\<close>

lemma fresh_val_mono: "fresh_val n v \<Longrightarrow> m \<le> n \<Longrightarrow> fresh_val m v"
  by (cases v) auto

lemma fresh_obj_mono: "fresh_obj n obj \<Longrightarrow> m \<le> n \<Longrightarrow> fresh_obj m obj"
  by (auto simp: fresh_obj_def list_all_iff intro: fresh_val_mono)

lemma list_all_fresh_obj_mono:
  "list_all (fresh_obj n) objs \<Longrightarrow> m \<le> n \<Longrightarrow> list_all (fresh_obj m) objs"
  by (auto simp: list_all_iff intro: fresh_obj_mono)

lemma list_all_fresh_val_mono:
  "list_all (fresh_val n) vs \<Longrightarrow> m \<le> n \<Longrightarrow> list_all (fresh_val m) vs"
  by (auto simp: list_all_iff intro: fresh_val_mono)

lemma fresh_obj_zip:
  "list_all (fresh_val n) vs \<Longrightarrow> fresh_obj n (PyDict (zip ks vs))"
  by (auto simp: fresh_obj_def list_all_iff dest: set_zip_rightD)

lemma fresh_obj_list:
  "list_all (fresh_val n) vs \<Longrightarrow> fresh_obj n (PyList vs)"
  by (simp add: fresh_obj_def)

text \<open>
  \<^verbatim>\<open>json.loads\<close> only adds objects to the store, and what it adds refers to nothing
  that was there before.
\<close>

lemma loads_fresh:
  "json_loads d h = (h1, v) \<Longrightarrow>
     \<exists>new. h1 = h @ new \<and> list_all (fresh_obj (length h)) new \<and> fresh_val (length h) v"
  "loads_items ds h = (h2, vs) \<Longrightarrow>
     \<exists>new. h2 = h @ new \<and> list_all (fresh_obj (length h)) new \<and> list_all (fresh_val (length h)) vs"
proof (induction d h and ds h arbitrary: h1 v and h2 vs rule: json_loads_loads_items.induct)
  case (5 xs h)
  obtain h' vs' where items: "loads_items xs h = (h', vs')"
    by (cases "loads_items xs h")
  from "5.IH" [OF items] obtain new where
    new: "h' = h @ new" "list_all (fresh_obj (length h)) new" "list_all (fresh_val (length h)) vs'"
    by blast
  from "5.prems" items have "h1 = h @ (new @ [PyList vs'])" "v = VRef (length h')"
    by (auto simp: new(1))
  with new show ?case
    by (auto simp: fresh_obj_list)
next
  case (6 kvs h)
  obtain h' vs' where items: "loads_items (map snd kvs) h = (h', vs')"
    by (cases "loads_items (map snd kvs) h")
  from "6.IH" [OF items] obtain new where
    new: "h' = h @ new" "list_all (fresh_obj (length h)) new" "list_all (fresh_val (length h)) vs'"
    by blast
  from "6.prems" items have "h1 = h @ (new @ [PyDict (zip (map fst kvs) vs')])" "v = VRef (length h')"
    by (auto simp: new(1))
  with new show ?case
    by (auto simp: fresh_obj_zip)
next
  case (8 x xs h)
  obtain h' v' where first: "json_loads x h = (h', v')"
    by (cases "json_loads x h")
  obtain h'' vs' where others: "loads_items xs h' = (h'', vs')"
    by (cases "loads_items xs h'")
  from "8.IH"(1) [OF first] obtain new1 where
    new1: "h' = h @ new1" "list_all (fresh_obj (length h)) new1" "fresh_val (length h) v'"
    by blast
  from "8.IH"(2) [OF first [symmetric] others] obtain new2 where
    new2: "h'' = h' @ new2" "list_all (fresh_obj (length h')) new2"
      "list_all (fresh_val (length h')) vs'"
    by blast
  have le: "length h \<le> length h'"
    by (simp add: new1(1))
  from "8.prems" first others have "h2 = h @ (new1 @ new2)" "vs = v' # vs'"
    by (auto simp: new1(1) new2(1))
  with new1 new2 le show ?case
    by (auto intro: list_all_fresh_obj_mono list_all_fresh_val_mono)
qed auto

lemma store_extension_take: "store_extension h h' \<Longrightarrow> take (length h) h' = h"
  by (simp add: store_extension_def)

lemma store_extension_length:
  assumes "store_extension h h'"
  shows "length h \<le> length h'"
proof -
  from assms have "take (length h) h' = h"
    by (rule store_extension_take)
  then have "length (take (length h) h') = length h"
    by (rule arg_cong)
  then show ?thesis
    by simp
qed

lemma store_extension_append:
  "list_all (fresh_obj (length h)) new \<Longrightarrow> store_extension h (h @ new)"
  by (simp add: store_extension_def)

lemma store_extension_alloc:
  assumes "store_extension h hk" and "fresh_obj (length h) obj"
  shows "store_extension h (hk @ [obj])"
proof -
  from assms(1) have len: "length h \<le> length hk"
    by (rule store_extension_length)
  with assms show ?thesis
    by (simp add: store_extension_def)
qed

lemma list_all_update:
  "list_all P xs \<Longrightarrow> P x \<Longrightarrow> list_all P (xs[i := x])"
  by (induction xs arbitrary: i) (auto split: nat.splits)

lemma store_extension_update:
  assumes "store_extension h hk" and "length h \<le> a" and "fresh_obj (length h) obj"
  shows "store_extension h (hk[a := obj])"
proof -
  have "drop (length h) (hk[a := obj]) = (drop (length h) hk)[a - length h := obj]"
    using assms(2) by (simp add: drop_update_swap)
  moreover have "list_all (fresh_obj (length h)) ((drop (length h) hk)[a - length h := obj])"
    using assms(1,3) by (simp add: store_extension_def list_all_update)
  moreover have "take (length h) (hk[a := obj]) = take (length h) hk"
    using assms(2) by simp
  ultimately show ?thesis
    using assms(1) by (simp add: store_extension_def)
qed

lemma store_extension_nth_fresh:
  assumes "store_extension h hk" and "length h \<le> a" and "a < length hk"
  shows "fresh_obj (length h) (hk ! a)"
proof -
  from assms(2,3) have nth: "hk ! a = drop (length h) hk ! (a - length h)"
    by simp
  from assms(2,3) have "a - length h < length (drop (length h) hk)"
    by simp
  moreover from assms(1) have "list_all (fresh_obj (length h)) (drop (length h) hk)"
    by (simp add: store_extension_def)
  ultimately have "fresh_obj (length h) (drop (length h) hk ! (a - length h))"
    by (simp add: list_all_length)
  with nth show ?thesis
    by simp
qed

lemma store_extension_nth_old:
  assumes "store_extension h hk" and "a < length h"
  shows "hk ! a = h ! a"
proof -
  from assms(2) have "take (length h) hk ! a = hk ! a"
    by simp
  with assms(1) show ?thesis
    by (simp add: store_extension_take)
qed

lemma fresh_val_map_of:
  "fresh_obj n (PyDict es) \<Longrightarrow> map_of es k = Some v \<Longrightarrow> fresh_val n v"
  by (auto simp: fresh_obj_def list_all_iff dest!: map_of_SomeD)

lemma fresh_obj_delete:
  "fresh_obj n (PyDict es) \<Longrightarrow> fresh_obj n (PyDict (AList.delete k es))"
  by (induction es) (auto simp: fresh_obj_def)

lemma fresh_obj_update:
  "fresh_obj n (PyDict es) \<Longrightarrow> fresh_val n v \<Longrightarrow> fresh_obj n (PyDict (AList.update k v es))"
  by (induction es) (auto simp: fresh_obj_def)

lemma hp_getitem_fresh:
  assumes "store_extension h hk" and "fresh_val (length h) target"
    and "hp_getitem hk target k = Inr v"
  shows "fresh_val (length h) v"
proof (cases target)
  case (VRef a)
  with assms(3) have a: "a < length hk"
    by (auto split: if_splits)
  from assms(2) VRef have "length h \<le> a"
    by simp
  with assms(1) a have "fresh_obj (length h) (hk ! a)"
    by (simp add: store_extension_nth_fresh)
  with assms(3) VRef a show ?thesis
    by (auto split: pyobj.splits option.splits dest: fresh_val_map_of)
qed (use assms(3) in simp_all)

lemma hp_delitem_extension:
  assumes "store_extension h hk" and "fresh_val (length h) target"
    and "hp_delitem hk target k = Inr hk'"
  shows "store_extension h hk'"
proof (cases target)
  case (VRef a)
  with assms(3) have a: "a < length hk"
    by (auto split: if_splits)
  from assms(2) VRef have le: "length h \<le> a"
    by simp
  with assms(1) a have "fresh_obj (length h) (hk ! a)"
    by (simp add: store_extension_nth_fresh)
  with assms(1,3) VRef a le show ?thesis
    by (auto split: pyobj.splits if_splits intro!: store_extension_update fresh_obj_delete)
qed (use assms(3) in simp_all)

lemma hp_setitem_extension:
  assumes "store_extension h hk" and "fresh_val (length h) target" and "fresh_val (length h) v"
    and "hp_setitem hk target k v = Inr hk'"
  shows "store_extension h hk'"
proof (cases target)
  case (VRef a)
  with assms(4) have a: "a < length hk"
    by (auto split: if_splits)
  from assms(2) VRef have le: "length h \<le> a"
    by simp
  with assms(1) a have "fresh_obj (length h) (hk ! a)"
    by (simp add: store_extension_nth_fresh)
  with assms(1,3,4) VRef a le show ?thesis
    by (auto split: pyobj.splits if_splits intro!: store_extension_update fresh_obj_update)
qed (use assms(4) in simp_all)

lemma remove_key_property_heap_extension:
  assumes ext: "store_extension h hk" and fresh: "fresh_val (length h) target"
    and step: "remove_key_property_heap hk target = Inr hk'"
  shows "store_extension h hk'"
proof (cases "hp_contains hk ''properties'' target")
  case (Inl e)
  with step show ?thesis
    by (simp add: remove_key_property_heap_def)
next
  case has_properties: (Inr present)
  show ?thesis
  proof (cases present)
    case False
    with has_properties step have "hk' = hk"
      by (simp add: remove_key_property_heap_def)
    with ext show ?thesis
      by simp
  next
    case True
    with has_properties have present: "hp_contains hk ''properties'' target = Inr True"
      by simp
    show ?thesis
    proof (cases "hp_getitem hk target ''properties''")
      case (Inl e)
      with present step show ?thesis
        by (simp add: remove_key_property_heap_def)
    next
      case got: (Inr props)
      from ext fresh got have fresh_props: "fresh_val (length h) props"
        by (rule hp_getitem_fresh)
      show ?thesis
      proof (cases "hp_contains hk ''key'' props")
        case (Inl e)
        with present got step show ?thesis
          by (simp add: remove_key_property_heap_def)
      next
        case has_key: (Inr key_present)
        show ?thesis
        proof (cases key_present)
          case False
          with present got has_key step have "hk' = hk"
            by (simp add: remove_key_property_heap_def)
          with ext show ?thesis
            by simp
        next
          case True
          with present got has_key step have "hp_delitem hk props ''key'' = Inr hk'"
            by (simp add: remove_key_property_heap_def)
          with ext fresh_props show ?thesis
            by (rule hp_delitem_extension)
        qed
      qed
    qed
  qed
qed

lemma narrow_oneOf_heap_extension:
  assumes "store_extension h hk" and "fresh_val (length h) target"
    and "narrow_oneOf_heap hk target = Inr hk'"
  shows "store_extension h hk'"
proof (cases "hp_contains hk ''oneOf'' target")
  case (Inl e)
  with assms(3) show ?thesis
    by (simp add: narrow_oneOf_heap_def)
next
  case (Inr present)
  show ?thesis
  proof (cases present)
    case False
    with Inr assms(1,3) show ?thesis
      by (simp add: narrow_oneOf_heap_def)
  next
    case True
    let ?required = "PyList [VStr ''id'', VStr ''specVersion'', VStr ''states'']"
    let ?variant = "PyDict [(''required'', VRef (length hk))]"
    let ?variants = "PyList [VRef (Suc (length hk))]"
    let ?h3 = "hk @ [?required, ?variant, ?variants]"
    from assms(1) have len: "length h \<le> length hk"
      by (rule store_extension_length)
    have "store_extension h (hk @ [?required])"
      using assms(1) by (rule store_extension_alloc) (simp add: fresh_obj_def)
    then have "store_extension h ((hk @ [?required]) @ [?variant])"
      by (rule store_extension_alloc) (simp add: fresh_obj_def len)
    then have "store_extension h (((hk @ [?required]) @ [?variant]) @ [?variants])"
      by (rule store_extension_alloc) (simp add: fresh_obj_def len le_SucI)
    then have ext: "store_extension h ?h3"
      by simp
    from Inr True assms(3)
    have "hp_setitem ?h3 target ''oneOf'' (VRef (Suc (Suc (length hk)))) = Inr hk'"
      by (simp add: narrow_oneOf_heap_def alloc_def)
    moreover have "fresh_val (length h) (VRef (Suc (Suc (length hk))))"
      using len by simp
    ultimately show ?thesis
      using ext assms(2) by (blast intro: hp_setitem_extension)
  qed
qed

lemma update_description_heap_extension:
  assumes ext: "store_extension h hk" and fresh: "fresh_val (length h) target"
    and step: "update_description_heap hk target = Inr hk'"
  shows "store_extension h hk'"
proof (cases "hp_contains hk ''description'' target")
  case (Inl e)
  with step show ?thesis
    by (simp add: update_description_heap_def)
next
  case has_description: (Inr present)
  show ?thesis
  proof (cases present)
    case False
    with has_description step have "hk' = hk"
      by (simp add: update_description_heap_def)
    with ext show ?thesis
      by simp
  next
    case True
    let ?v = "VStr ''Serverless Workflow specification - workflow schema (ID-based workflows only)''"
    from True has_description step have "hp_setitem hk target ''description'' ?v = Inr hk'"
      by (simp add: update_description_heap_def)
    moreover have "fresh_val (length h) ?v"
      by simp
    ultimately show ?thesis
      using ext fresh by (blast intro: hp_setitem_extension)
  qed
qed

lemma json_loads_extension:
  assumes "json_loads d h = (h0, v)"
  shows "store_extension h h0 \<and> fresh_val (length h) v"
  using loads_fresh(1) [OF assms] by (auto simp: store_extension_append)

text \<open>
  Every write of the filter goes to an object made by the call, so the store after the
  call extends the store before it.
\<close>

lemma filter_heap_extension:
  assumes "filter_schema_for_id_workflows_heap limit h schema_dict = Inr (h', r)"
  shows "store_extension h h' \<and> fresh_val (length h) r"
proof -
  from assms obtain doc h0 h1 h2 where
    dumps: "json_dumps limit [] h schema_dict = Inr doc"
    and loads: "json_loads doc h = (h0, r)"
    and s1: "remove_key_property_heap h0 r = Inr h1"
    and s2: "narrow_oneOf_heap h1 r = Inr h2"
    and s3: "update_description_heap h2 r = Inr h'"
    by (auto simp: filter_schema_for_id_workflows_heap_def split: sum.splits prod.splits)
  from loads have e0: "store_extension h h0" and fresh: "fresh_val (length h) r"
    by (simp_all add: json_loads_extension)
  from e0 fresh s1 have "store_extension h h1"
    by (rule remove_key_property_heap_extension)
  from this fresh s2 have "store_extension h h2"
    by (rule narrow_oneOf_heap_extension)
  from this fresh s3 have "store_extension h h'"
    by (rule update_description_heap_extension)
  with fresh show ?thesis
    by simp
qed

lemma collect_map_cong:
  assumes "collect (map f xs) = Inr ys"
    and "\<And>x y. x \<in> set xs \<Longrightarrow> f x = Inr y \<Longrightarrow> g x = Inr y"
  shows "collect (map g xs) = Inr ys"
  using assms
proof (induction xs arbitrary: ys)
  case Nil
  then show ?case by simp
next
  case (Cons x xs)
  from Cons.prems(1) obtain y where y: "f x = Inr y"
    by (cases "f x") auto
  with Cons.prems(1) obtain ys' where ys': "collect (map f xs) = Inr ys'" "ys = y # ys'"
    by (cases "collect (map f xs)") auto
  from y Cons.prems(2) have "g x = Inr y"
    by simp
  moreover from ys'(1) Cons.prems(2) have "collect (map g xs) = Inr ys'"
    by (intro Cons.IH) simp_all
  ultimately show ?case
    using ys'(2) by simp
qed

text \<open>A value of the old store serialises in an extension as it did before.\<close>

lemma json_dumps_extension:
  assumes "store_extension h h'"
  shows "json_dumps n ms h v = Inr d \<Longrightarrow> json_dumps n ms h' v = Inr d"
proof (induction n arbitrary: ms v d)
  case 0
  then show ?case
    by (cases v) (auto split: if_splits)
next
  case (Suc n)
  show ?case
  proof (cases v)
    case (VRef a)
    with Suc.prems have a: "a \<notin> set ms" "a < length h"
      by (auto split: if_splits)
    from assms a(2) have same: "h' ! a = h ! a"
      by (rule store_extension_nth_old)
    from assms have "length h \<le> length h'"
      by (rule store_extension_length)
    with a(2) have a': "a < length h'"
      by simp
    show ?thesis
    proof (cases "h ! a")
      case (PyList vs)
      with Suc.prems VRef a obtain xs where
        xs: "collect (map (json_dumps n (a # ms) h) vs) = Inr xs" "d = JArray xs"
        by (auto split: sum.splits)
      from xs(1) have "collect (map (json_dumps n (a # ms) h') vs) = Inr xs"
        by (rule collect_map_cong) (rule Suc.IH)
      with VRef a a' same PyList xs(2) show ?thesis
        by simp
    next
      case (PyDict es)
      with Suc.prems VRef a obtain xs where
        xs: "collect (map (json_dumps n (a # ms) h) (map snd es)) = Inr xs"
          "d = JObject (zip (map fst es) xs)"
        by (auto split: sum.splits)
      from xs(1) have "collect (map (json_dumps n (a # ms) h') (map snd es)) = Inr xs"
        by (rule collect_map_cong) (rule Suc.IH)
      with VRef a a' same PyDict xs(2) show ?thesis
        by simp
    qed
  qed (use Suc.prems in simp_all)
qed

subsection \<open>The filter on the store computes the filter on documents\<close>

lemma fold_max_le: "fold max ns (m::nat) \<le> k \<longleftrightarrow> m \<le> k \<and> (\<forall>n\<in>set ns. n \<le> k)"
  by (induction ns arbitrary: m) auto

lemma collect_map_Inr_id: "collect (map Inr xs) = Inr xs"
  by (induction xs) auto

lemma collect_InrD: "collect rs = Inr xs \<Longrightarrow> rs = map Inr xs"
proof (induction rs arbitrary: xs)
  case Nil
  then show ?case by simp
next
  case (Cons r rs)
  then show ?case
    by (cases r) (auto split: sum.splits)
qed

lemma collect_Inr_iff: "collect rs = Inr xs \<longleftrightarrow> rs = map Inr xs"
  using collect_InrD collect_map_Inr_id by blast

lemma collect_map_Inr:
  "collect (map f vs) = Inr xs \<longleftrightarrow> length xs = length vs \<and> (\<forall>i<length vs. f (vs ! i) = Inr (xs ! i))"
  by (auto simp: collect_Inr_iff list_eq_iff_nth_eq)

lemma json_dumps_nesting:
  "json_dumps n ms h v = Inr t \<Longrightarrow> nesting t \<le> n"
proof (induction n arbitrary: ms v t)
  case 0
  then show ?case
    by (cases v) (auto split: if_splits)
next
  case (Suc n)
  show ?case
  proof (cases v)
    case (VRef a)
    with Suc.prems have a: "a \<notin> set ms" "a < length h"
      by (auto split: if_splits)
    show ?thesis
    proof (cases "h ! a")
      case (PyList vs)
      with Suc.prems VRef a obtain xs where
        xs: "collect (map (json_dumps n (a # ms) h) vs) = Inr xs" "t = JArray xs"
        by (auto split: sum.splits)
      have "nesting x \<le> n" if "x \<in> set xs" for x
      proof -
        from that obtain i where i: "i < length xs" "x = xs ! i"
          by (auto simp: in_set_conv_nth)
        with xs(1) have "json_dumps n (a # ms) h (vs ! i) = Inr x"
          by (simp add: collect_map_Inr)
        then show ?thesis
          by (rule Suc.IH)
      qed
      then have "\<forall>x\<in>set xs. nesting x \<le> n"
        by blast
      with xs(2) show ?thesis
        by (simp add: fold_max_le)
    next
      case (PyDict es)
      with Suc.prems VRef a obtain xs where
        xs: "collect (map (json_dumps n (a # ms) h) (map snd es)) = Inr xs"
          "t = JObject (zip (map fst es) xs)"
        by (auto split: sum.splits)
      have "nesting x \<le> n" if "x \<in> set xs" for x
      proof -
        from that obtain i where i: "i < length xs" "x = xs ! i"
          by (auto simp: in_set_conv_nth)
        with xs(1) have "json_dumps n (a # ms) h (map snd es ! i) = Inr x"
          by (simp add: collect_map_Inr)
        then show ?thesis
          by (rule Suc.IH)
      qed
      then have "\<forall>x\<in>set xs. nesting x \<le> n"
        by blast
      with xs(2) show ?thesis
        by (auto simp: fold_max_le dest: set_zip_rightD)
    qed
  qed (use Suc.prems in auto)
qed

lemma loads_append:
  "json_loads t h = (h1, v) \<Longrightarrow> \<exists>new. h1 = h @ new"
  "loads_items ts h = (h2, vs) \<Longrightarrow> \<exists>new. h2 = h @ new"
  using loads_fresh by blast+

lemma nesting_container:
  "nesting (JArray xs) \<le> n \<Longrightarrow> \<exists>n'. n = Suc n' \<and> (\<forall>x\<in>set xs. nesting x \<le> n')"
  "nesting (JObject kvs) \<le> n \<Longrightarrow> \<exists>n'. n = Suc n' \<and> (\<forall>x\<in>set (map snd kvs). nesting x \<le> n')"
  by (cases n; auto simp: fold_max_le)+

text \<open>
  What \<^verbatim>\<open>json.loads\<close> built serialises back to the document it was built from, in
  every store that holds the objects it made, as long as none of them is on the path
  already and the limit allows the nesting of the document.
\<close>

lemma dumps_loads:
  "json_loads t h = (h1, v) \<Longrightarrow> nesting t \<le> n \<Longrightarrow> length h1 \<le> length H \<Longrightarrow>
     (\<forall>a. length h \<le> a \<and> a < length h1 \<longrightarrow> H ! a = h1 ! a) \<Longrightarrow>
     (\<forall>m\<in>set ms. m < length h \<or> length h1 \<le> m) \<Longrightarrow>
     json_dumps n ms H v = Inr t"
  "loads_items ts h = (h2, vs) \<Longrightarrow> (\<forall>t\<in>set ts. nesting t \<le> n) \<Longrightarrow> length h2 \<le> length H \<Longrightarrow>
     (\<forall>a. length h \<le> a \<and> a < length h2 \<longrightarrow> H ! a = h2 ! a) \<Longrightarrow>
     (\<forall>m\<in>set ms. m < length h \<or> length h2 \<le> m) \<Longrightarrow>
     collect (map (json_dumps n ms H) vs) = Inr ts"
proof (induction t h and ts h arbitrary: h1 v n H ms and h2 vs n H ms
    rule: json_loads_loads_items.induct)
  case (5 xs h)
  obtain h' vs' where items: "loads_items xs h = (h', vs')"
    by (cases "loads_items xs h")
  with "5.prems"(1) have h1: "h1 = h' @ [PyList vs']" and v: "v = VRef (length h')"
    by auto
  from loads_append(2) [OF items] have le: "length h \<le> length h'"
    by auto
  from "5.prems"(2) obtain n' where n: "n = Suc n'" and small: "\<forall>x\<in>set xs. nesting x \<le> n'"
    using nesting_container(1) by blast
  from "5.prems"(3,4) h1 le have at: "length h' < length H" "H ! length h' = PyList vs'"
    by auto
  from "5.prems"(5) h1 le have fresh: "length h' \<notin> set ms"
    by auto
  have "collect (map (json_dumps n' (length h' # ms) H) vs') = Inr xs"
  proof (rule "5.IH" [OF items small])
    show "length h' \<le> length H"
      using at(1) by simp
    show "\<forall>a. length h \<le> a \<and> a < length h' \<longrightarrow> H ! a = h' ! a"
      using "5.prems"(4) h1 by (auto simp: nth_append)
    show "\<forall>m\<in>set (length h' # ms). m < length h \<or> length h' \<le> m"
      using "5.prems"(5) h1 by auto
  qed
  with n v at fresh show ?case
    by simp
next
  case (6 kvs h)
  obtain h' vs' where items: "loads_items (map snd kvs) h = (h', vs')"
    by (cases "loads_items (map snd kvs) h")
  with "6.prems"(1) have h1: "h1 = h' @ [PyDict (zip (map fst kvs) vs')]" and v: "v = VRef (length h')"
    by auto
  from loads_append(2) [OF items] have le: "length h \<le> length h'"
    by auto
  from "6.prems"(2) obtain n' where n: "n = Suc n'"
    and small: "\<forall>x\<in>set (map snd kvs). nesting x \<le> n'"
    using nesting_container(2) by blast
  from "6.prems"(3,4) h1 le
  have at: "length h' < length H" "H ! length h' = PyDict (zip (map fst kvs) vs')"
    by auto
  from "6.prems"(5) h1 le have fresh: "length h' \<notin> set ms"
    by auto
  have children: "collect (map (json_dumps n' (length h' # ms) H) vs') = Inr (map snd kvs)"
  proof (rule "6.IH" [OF items small])
    show "length h' \<le> length H"
      using at(1) by simp
    show "\<forall>a. length h \<le> a \<and> a < length h' \<longrightarrow> H ! a = h' ! a"
      using "6.prems"(4) h1 by (auto simp: nth_append)
    show "\<forall>m\<in>set (length h' # ms). m < length h \<or> length h' \<le> m"
      using "6.prems"(5) h1 by auto
  qed
  then have len: "length vs' = length kvs"
    by (simp add: collect_map_Inr)
  from len have "map snd (zip (map fst kvs) vs') = vs'" "map fst (zip (map fst kvs) vs') = map fst kvs"
    by simp_all
  with n v at fresh children show ?case
    by (simp add: zip_map_fst_snd)
next
  case (8 x xs h)
  obtain h' v' where first: "json_loads x h = (h', v')"
    by (cases "json_loads x h")
  obtain h'' vs' where others: "loads_items xs h' = (h'', vs')"
    by (cases "loads_items xs h'")
  from "8.prems"(1) first others have h2: "h2 = h''" and vs: "vs = v' # vs'"
    by auto
  from loads_append(1) [OF first] obtain new1 where new1: "h' = h @ new1"
    by blast
  from loads_append(2) [OF others] obtain new2 where new2: "h'' = h' @ new2"
    by blast
  have "json_dumps n ms H v' = Inr x"
  proof (rule "8.IH"(1) [OF first])
    show "nesting x \<le> n"
      using "8.prems"(2) by simp
    show "length h' \<le> length H"
      using "8.prems"(3) h2 new2 by simp
    show "\<forall>a. length h \<le> a \<and> a < length h' \<longrightarrow> H ! a = h' ! a"
      using "8.prems"(4) h2 new2 by (auto simp: nth_append)
    show "\<forall>m\<in>set ms. m < length h \<or> length h' \<le> m"
      using "8.prems"(5) h2 new2 by auto
  qed
  moreover have "collect (map (json_dumps n ms H) vs') = Inr xs"
  proof (rule "8.IH"(2) [OF first [symmetric] others])
    show "\<forall>t\<in>set xs. nesting t \<le> n"
      using "8.prems"(2) by simp
    show "length h'' \<le> length H"
      using "8.prems"(3) h2 by simp
    show "\<forall>a. length h' \<le> a \<and> a < length h'' \<longrightarrow> H ! a = h'' ! a"
      using "8.prems"(4) h2 new1 by auto
    show "\<forall>m\<in>set ms. m < length h' \<or> length h'' \<le> m"
      using "8.prems"(5) h2 new1 by auto
  qed
  ultimately show ?case
    using vs by simp
qed (auto simp: collect_map_Inr)

lemma loads_items_split:
  "loads_items (ts1 @ t # ts2) h = (h2, vs) \<Longrightarrow>
   \<exists>h1 h1' vs1 v vs2. loads_items ts1 h = (h1, vs1) \<and> json_loads t h1 = (h1', v) \<and>
      loads_items ts2 h1' = (h2, vs2) \<and> vs = vs1 @ v # vs2"
proof (induction ts1 arbitrary: h h2 vs)
  case Nil
  then show ?case
    by (auto split: prod.splits)
next
  case (Cons x ts1)
  obtain h' v' where first: "json_loads x h = (h', v')"
    by (cases "json_loads x h")
  obtain h'' vs' where others: "loads_items (ts1 @ t # ts2) h' = (h'', vs')"
    by (cases "loads_items (ts1 @ t # ts2) h'")
  from Cons.prems first others have eq: "h2 = h''" "vs = v' # vs'"
    by auto
  from Cons.IH [OF others] obtain h1 h1' vs1 v vs2 where
    "loads_items ts1 h' = (h1, vs1)" "json_loads t h1 = (h1', v)"
    "loads_items ts2 h1' = (h'', vs2)" "vs' = vs1 @ v # vs2"
    by blast
  with first eq show ?case
    by auto
qed

lemma loads_items_length: "loads_items ts h = (h2, vs) \<Longrightarrow> length vs = length ts"
proof (induction ts arbitrary: h h2 vs)
  case Nil
  then show ?case by simp
next
  case (Cons t ts)
  then show ?case
    by (auto split: prod.splits)
qed

text \<open>
  A serialisation that succeeds has not visited the containers on its path: the store
  may change at their addresses, and grow, without changing the result.
\<close>

lemma dumps_frame:
  assumes "length h \<le> length h'"
  shows "json_dumps n ms h v = Inr t \<Longrightarrow> (\<forall>a<length h. a \<notin> set ms \<longrightarrow> h' ! a = h ! a) \<Longrightarrow>
         json_dumps n ms h' v = Inr t"
proof (induction n arbitrary: ms v t)
  case 0
  then show ?case
    by (cases v) (auto split: if_splits)
next
  case (Suc n)
  show ?case
  proof (cases v)
    case (VRef a)
    with Suc.prems(1) have a: "a \<notin> set ms" "a < length h"
      by (auto split: if_splits)
    with Suc.prems(2) have same: "h' ! a = h ! a"
      by simp
    from assms a(2) have a': "a < length h'"
      by simp
    have frame: "\<forall>b<length h. b \<notin> set (a # ms) \<longrightarrow> h' ! b = h ! b"
      using Suc.prems(2) by simp
    show ?thesis
    proof (cases "h ! a")
      case (PyList vs)
      with Suc.prems(1) VRef a obtain xs where
        xs: "collect (map (json_dumps n (a # ms) h) vs) = Inr xs" "t = JArray xs"
        by (auto split: sum.splits)
      from xs(1) have "collect (map (json_dumps n (a # ms) h') vs) = Inr xs"
        by (rule collect_map_cong) (rule Suc.IH [OF _ frame])
      with VRef a a' same PyList xs(2) show ?thesis
        by simp
    next
      case (PyDict es)
      with Suc.prems(1) VRef a obtain xs where
        xs: "collect (map (json_dumps n (a # ms) h) (map snd es)) = Inr xs"
          "t = JObject (zip (map fst es) xs)"
        by (auto split: sum.splits)
      from xs(1) have "collect (map (json_dumps n (a # ms) h') (map snd es)) = Inr xs"
        by (rule collect_map_cong) (rule Suc.IH [OF _ frame])
      with VRef a a' same PyDict xs(2) show ?thesis
        by simp
    qed
  qed (use Suc.prems in simp_all)
qed

lemma entry_rel_pair: "entry_rel g (k, v) (k', t) \<longleftrightarrow> k = k' \<and> g v = Inr t"
  by (simp add: entry_rel_def)

lemma entries_keys: "list_all2 (entry_rel g) es kvs \<Longrightarrow> map fst es = map fst kvs"
  by (induction rule: list_all2_induct) (auto simp: entry_rel_pair)

lemma entries_collect:
  "list_all2 (entry_rel g) es kvs \<Longrightarrow> collect (map g (map snd es)) = Inr (map snd kvs)"
  by (induction rule: list_all2_induct) (auto simp: entry_rel_pair)

lemma entries_zip:
  "collect (map g vs) = Inr ts \<Longrightarrow> length ks = length vs \<Longrightarrow>
   list_all2 (entry_rel g) (zip ks vs) (zip ks ts)"
  by (auto simp: collect_map_Inr list_all2_conv_all_nth entry_rel_def)

lemma entries_update:
  "list_all2 (entry_rel g) es kvs \<Longrightarrow> g v = Inr t \<Longrightarrow>
   list_all2 (entry_rel g) (AList.update k v es) (AList.update k t kvs)"
  by (induction rule: list_all2_induct) (auto simp: entry_rel_pair)

lemma entries_delete:
  "list_all2 (entry_rel g) es kvs \<Longrightarrow>
   list_all2 (entry_rel g) (AList.delete k es) (AList.delete k kvs)"
  by (induction rule: list_all2_induct) (auto simp: entry_rel_pair)

lemma entries_cong:
  "list_all2 (entry_rel g) es kvs \<Longrightarrow> (\<And>v t. g v = Inr t \<Longrightarrow> g' v = Inr t) \<Longrightarrow>
   list_all2 (entry_rel g') es kvs"
  by (induction rule: list_all2_induct) (auto simp: entry_rel_pair)

lemma dumps_dict:
  assumes "a < length H" and "H ! a = PyDict es" and "a \<notin> set ms"
    and "list_all2 (entry_rel (json_dumps n (a # ms) H)) es kvs"
  shows "json_dumps (Suc n) ms H (VRef a) = Inr (JObject kvs)"
proof -
  from assms(4) have "map fst es = map fst kvs"
    and "collect (map (json_dumps n (a # ms) H) (map snd es)) = Inr (map snd kvs)"
    by (rule entries_keys, rule entries_collect)
  with assms(1-3) show ?thesis
    by (simp add: zip_map_fst_snd)
qed

lemma root_relE:
  assumes "root_rel n a H kvs"
  obtains es where "a < length H" "H ! a = PyDict es"
    "list_all2 (entry_rel (json_dumps n [a] H)) es kvs" "map fst es = map fst kvs"
  using assms by (auto simp: root_rel_def split: pyobj.splits dest: entries_keys)

lemma root_relI:
  "a < length H \<Longrightarrow> H ! a = PyDict es \<Longrightarrow> list_all2 (entry_rel (json_dumps n [a] H)) es kvs \<Longrightarrow>
   root_rel n a H kvs"
  by (simp add: root_rel_def)

lemma root_rel_dumps:
  assumes "root_rel n a H kvs"
  shows "json_dumps (Suc n) [] H (VRef a) = Inr (JObject kvs)"
  using assms by (elim root_relE) (rule dumps_dict, simp_all)

lemma root_rel_contains:
  assumes "root_rel n a H kvs"
  shows "hp_contains H k (VRef a) = Inr (map_of kvs k \<noteq> None)"
proof -
  from assms obtain es where "a < length H" "H ! a = PyDict es" "map fst es = map fst kvs"
    by (elim root_relE)
  then have "hp_contains H k (VRef a) = Inr (k \<in> set (map fst kvs))"
    by (simp del: set_map)
  then show ?thesis
    by (simp only: key_in_iff)
qed

text \<open>
  An assignment \<^verbatim>\<open>root[k] = v\<close> on the dict at \<open>a\<close>, after allocations that leave the
  old objects alone, is the update of the entry \<open>k\<close> of the object it stands for.
\<close>

lemma root_rel_setitem:
  assumes rel: "root_rel n a H kvs" and len: "length H \<le> length H0"
    and old: "\<forall>b<length H. H0 ! b = H ! b"
    and new: "\<And>H'. H' = H0[a := PyDict es'] \<Longrightarrow> json_dumps n [a] H' v = Inr t"
    and es': "\<And>es. H ! a = PyDict es \<Longrightarrow> es' = AList.update k v es"
  shows "\<exists>H'. hp_setitem H0 (VRef a) k v = Inr H' \<and> root_rel n a H' (AList.update k t kvs)"
proof -
  from rel obtain es where es: "a < length H" "H ! a = PyDict es"
    "list_all2 (entry_rel (json_dumps n [a] H)) es kvs"
    by (elim root_relE)
  let ?H' = "H0[a := PyDict (AList.update k v es)]"
  from es(1,2) len old have set: "hp_setitem H0 (VRef a) k v = Inr ?H'"
    by simp
  have frame: "json_dumps n [a] ?H' w = Inr u" if "json_dumps n [a] H w = Inr u" for w u
  proof (rule dumps_frame [OF _ that])
    show "length H \<le> length ?H'"
      using len by simp
    show "\<forall>b<length H. b \<notin> set [a] \<longrightarrow> ?H' ! b = H ! b"
      using old by simp
  qed
  from es(3) have "list_all2 (entry_rel (json_dumps n [a] ?H')) es kvs"
    by (rule entries_cong) (rule frame)
  moreover have "json_dumps n [a] ?H' v = Inr t"
    using es'[OF es(2)] by (intro new) simp
  ultimately have "list_all2 (entry_rel (json_dumps n [a] ?H'))
      (AList.update k v es) (AList.update k t kvs)"
    by (rule entries_update)
  with es(1) len have "root_rel n a ?H' (AList.update k t kvs)"
    by (intro root_relI [where es = "AList.update k v es"]) simp_all
  with set show ?thesis
    by blast
qed

lemma update_description_heap_refines:
  assumes "root_rel n a H kvs"
  shows "\<exists>H'. update_description_heap H (VRef a) = Inr H' \<and> root_rel n a H' (with_description kvs)"
proof (cases "map_of kvs ''description'' = None")
  case True
  from assms have "hp_contains H ''description'' (VRef a) = Inr (map_of kvs ''description'' \<noteq> None)"
    by (rule root_rel_contains)
  with True assms show ?thesis
    by (simp add: update_description_heap_def with_description_def del: hp_contains.simps)
next
  case False
  from assms obtain es where es: "H ! a = PyDict es"
    by (elim root_relE)
  let ?v = "VStr ''Serverless Workflow specification - workflow schema (ID-based workflows only)''"
  have "\<exists>H'. hp_setitem H (VRef a) ''description'' ?v = Inr H' \<and>
      root_rel n a H' (AList.update ''description'' id_description kvs)"
    using assms
  proof (rule root_rel_setitem [where es' = "AList.update ''description'' ?v es"])
    show "json_dumps n [a] H' ?v = Inr id_description" for H'
      by (simp add: id_description_def)
  qed (simp_all add: es)
  moreover from assms
  have "hp_contains H ''description'' (VRef a) = Inr (map_of kvs ''description'' \<noteq> None)"
    by (rule root_rel_contains)
  ultimately show ?thesis
    using False
    by (auto simp: update_description_heap_def with_description_def
        simp del: hp_contains.simps hp_setitem.simps)
qed

lemma dumps_id_variant:
  assumes "a < length H" and "H' = (H @ [PyList [VStr ''id'', VStr ''specVersion'', VStr ''states''],
             PyDict [(''required'', VRef (length H))],
             PyList [VRef (Suc (length H))]])[a := obj]"
  shows "json_dumps (Suc (Suc (Suc m))) [a] H' (VRef (Suc (Suc (length H)))) = Inr id_variant"
  using assms by (simp add: id_variant_def nth_append)

lemma narrow_oneOf_heap_refines:
  assumes "root_rel n a H kvs" and "3 \<le> n"
  shows "\<exists>H'. narrow_oneOf_heap H (VRef a) = Inr H' \<and> root_rel n a H' (with_oneOf kvs)"
proof -
  from assms(1) have c: "hp_contains H ''oneOf'' (VRef a) = Inr (map_of kvs ''oneOf'' \<noteq> None)"
    by (rule root_rel_contains)
  show ?thesis
  proof (cases "map_of kvs ''oneOf'' = None")
    case True
    with c assms(1) show ?thesis
      by (simp add: narrow_oneOf_heap_def with_oneOf_def del: hp_contains.simps)
  next
    case False
    from assms(1) obtain es where es: "a < length H" "H ! a = PyDict es"
      by (elim root_relE)
    from assms(2) obtain m where n: "n = Suc (Suc (Suc m))"
      by (metis add_2_eq_Suc' le_Suc_ex numeral_3_eq_3 add_Suc)
    let ?H0 = "H @ [PyList [VStr ''id'', VStr ''specVersion'', VStr ''states''],
             PyDict [(''required'', VRef (length H))],
             PyList [VRef (Suc (length H))]]"
    let ?v = "VRef (Suc (Suc (length H)))"
    have "\<exists>H'. hp_setitem ?H0 (VRef a) ''oneOf'' ?v = Inr H' \<and>
        root_rel n a H' (AList.update ''oneOf'' id_variant kvs)"
      using assms(1)
    proof (rule root_rel_setitem [where es' = "AList.update ''oneOf'' ?v es"])
      show "json_dumps n [a] H' ?v = Inr id_variant"
        if "H' = ?H0[a := PyDict (AList.update ''oneOf'' ?v es)]" for H'
        unfolding n using es(1) that by (rule dumps_id_variant)
    qed (simp_all add: es nth_append)
    with c False show ?thesis
      by (auto simp: narrow_oneOf_heap_def with_oneOf_def alloc_def
          simp del: hp_contains.simps hp_setitem.simps)
  qed
qed

lemma map_of_split:
  "map_of kvs k = Some v \<Longrightarrow> \<exists>kvs1 kvs2. kvs = kvs1 @ (k, v) # kvs2 \<and> k \<notin> fst ` set kvs1"
proof (induction kvs)
  case Nil
  then show ?case by simp
next
  case (Cons e kvs)
  show ?case
  proof (cases "fst e = k")
    case True
    with Cons.prems have "e # kvs = [] @ (k, v) # kvs"
      by (cases e) auto
    then show ?thesis
      by (metis empty_iff image_empty list.set(1))
  next
    case False
    with Cons.prems have "map_of kvs k = Some v"
      by (cases e) auto
    from Cons.IH [OF this] obtain kvs1 kvs2 where "kvs = kvs1 @ (k, v) # kvs2" "k \<notin> fst ` set kvs1"
      by blast
    with False have "e # kvs = (e # kvs1) @ (k, v) # kvs2" "k \<notin> fst ` set (e # kvs1)"
      by auto
    then show ?thesis
      by blast
  qed
qed

lemma update_first:
  "k \<notin> fst ` set xs \<Longrightarrow> AList.update k v (xs @ (k, v0) # ys) = xs @ (k, v) # ys"
  by (induction xs) auto

lemma map_of_first:
  "k \<notin> fst ` set xs \<Longrightarrow> map_of (xs @ (k, v) # ys) k = Some v"
  by (induction xs) auto

text \<open>
  The first edit on the copy. The copy shares no object between its members, so the
  deletion in the dict under \<open>properties\<close> changes the member \<open>properties\<close> of the
  root and no other.
\<close>

lemma remove_key_property_heap_refines:
  assumes loads: "json_loads (JObject kvs) h = (h0, v)"
    and doc: "schema_document (JObject kvs)"
    and small: "\<forall>t\<in>set (map snd kvs). nesting t \<le> n"
  shows "\<exists>a H kvs'. v = VRef a \<and> remove_key_property_heap h0 v = Inr H \<and>
           remove_key_property (JObject kvs) = Inr (JObject kvs') \<and> root_rel n a H kvs'"
proof -
  obtain h1 vs where items: "loads_items (map snd kvs) h = (h1, vs)"
    by (cases "loads_items (map snd kvs) h")
  with loads have h0: "h0 = h1 @ [PyDict (zip (map fst kvs) vs)]" and v: "v = VRef (length h1)"
    by auto
  let ?a = "length h1"
  let ?es = "zip (map fst kvs) vs"
  from items have len: "length vs = length kvs"
    by (auto dest: loads_items_length)
  have "collect (map (json_dumps n [?a] h0) vs) = Inr (map snd kvs)"
    by (rule dumps_loads(2) [OF items small]) (simp_all add: h0 nth_append)
  then have "list_all2 (entry_rel (json_dumps n [?a] h0)) ?es (zip (map fst kvs) (map snd kvs))"
    by (rule entries_zip) (simp add: len)
  then have init: "root_rel n ?a h0 kvs"
    by (intro root_relI [where es = ?es]) (simp_all add: h0 zip_map_fst_snd)
  then have contains:
    "hp_contains h0 ''properties'' (VRef ?a) = Inr (map_of kvs ''properties'' \<noteq> None)"
    by (rule root_rel_contains)
  show ?thesis
  proof (cases "map_of kvs ''properties''")
    case None
    with contains have "remove_key_property_heap h0 v = Inr h0"
      by (simp add: remove_key_property_heap_def v del: hp_contains.simps)
    moreover from None have "remove_key_property (JObject kvs) = Inr (JObject kvs)"
      by (rule remove_key_property_absent)
    ultimately show ?thesis
      using v init by blast
  next
    case (Some pr)
    with doc obtain ps where ps: "pr = JObject ps"
      by (auto simp: schema_document_def dest: is_objectE)
    from Some ps obtain kvs1 kvs2 where
      split: "kvs = kvs1 @ (''properties'', JObject ps) # kvs2" "''properties'' \<notin> fst ` set kvs1"
      using map_of_split by metis
    from items split(1)
    have "loads_items (map snd kvs1 @ JObject ps # map snd kvs2) h = (h1, vs)"
      by simp
    from loads_items_split [OF this] obtain hm hm' vs1 vp vs2 where
      l1: "loads_items (map snd kvs1) h = (hm, vs1)"
      and lp: "json_loads (JObject ps) hm = (hm', vp)"
      and l2: "loads_items (map snd kvs2) hm' = (h1, vs2)"
      and vs: "vs = vs1 @ vp # vs2"
      by blast
    obtain hq vps where lq: "loads_items (map snd ps) hm = (hq, vps)"
      by (cases "loads_items (map snd ps) hm")
    with lp have hm': "hm' = hq @ [PyDict (zip (map fst ps) vps)]" and vp: "vp = VRef (length hq)"
      by auto
    let ?p = "length hq"
    let ?eps = "zip (map fst ps) vps"
    from loads_append(2) [OF l1] obtain n1 where n1: "hm = h @ n1"
      by blast
    from loads_append(2) [OF lq] obtain nq where nq: "hq = hm @ nq"
      by blast
    from loads_append(2) [OF l2] obtain n2 where n2: "h1 = hm' @ n2"
      by blast
    from l1 have len1: "length vs1 = length kvs1"
      by (auto dest: loads_items_length)
    from lq have lenq: "length vps = length ps"
      by (auto dest: loads_items_length)
    have es: "?es = zip (map fst kvs1) vs1 @ (''properties'', vp) # zip (map fst kvs2) vs2"
      using split(1) vs len1 by simp
    have "''properties'' \<notin> fst ` set (zip (map fst kvs1) vs1)"
      using split(2) by (auto dest: set_zip_leftD)
    then have "map_of ?es ''properties'' = Some vp"
      unfolding es by (rule map_of_first)
    then have get: "hp_getitem h0 (VRef ?a) ''properties'' = Inr vp"
      by (simp add: h0)
    have at_p: "?p < length h0" "h0 ! ?p = PyDict ?eps" and pa: "?p < ?a"
      by (simp_all add: h0 n2 hm' nth_append)
    have keys_eps: "map fst ?eps = map fst ps"
      by (simp add: lenq)
    from at_p have "hp_contains h0 ''key'' vp = Inr (''key'' \<in> set (map fst ?eps))"
      by (simp add: vp del: set_map)
    then have contains_key: "hp_contains h0 ''key'' vp = Inr (map_of ps ''key'' \<noteq> None)"
      by (simp only: keys_eps key_in_iff)
    show ?thesis
    proof (cases "map_of ps ''key'' = None")
      case True
      with contains get contains_key Some have "remove_key_property_heap h0 v = Inr h0"
        by (simp add: remove_key_property_heap_def v del: hp_contains.simps hp_getitem.simps)
      moreover from Some ps True have "remove_key_property (JObject kvs) = Inr (JObject kvs)"
        by (simp add: remove_key_property_no_key)
      ultimately show ?thesis
        using v init by blast
    next
      case False
      let ?H = "h0[?p := PyDict (AList.delete ''key'' ?eps)]"
      let ?X = "JObject (AList.delete ''key'' ps)"
      have "''key'' \<in> set (map fst ?eps)"
        unfolding keys_eps key_in_iff using False by simp
      with at_p have "hp_delitem h0 vp ''key'' = Inr ?H"
        by (simp add: vp del: set_map)
      with contains get contains_key Some False have step: "remove_key_property_heap h0 v = Inr ?H"
        by (simp add: remove_key_property_heap_def v
            del: hp_contains.simps hp_getitem.simps hp_delitem.simps)
      from Some ps False
      have pure: "remove_key_property (JObject kvs) = Inr (JObject (AList.update ''properties'' ?X kvs))"
        by (simp add: remove_key_property_key)
      have upd: "AList.update ''properties'' ?X kvs = kvs1 @ (''properties'', ?X) # kvs2"
        unfolding split(1) using split(2) by (rule update_first)
      from small split(1) have small1: "\<forall>t\<in>set (map snd kvs1). nesting t \<le> n"
        and small2: "\<forall>t\<in>set (map snd kvs2). nesting t \<le> n"
        and smallp: "nesting (JObject ps) \<le> n"
        by auto
      from nesting_container(2) [OF smallp] obtain n' where n: "n = Suc n'"
        and smallq: "\<forall>t\<in>set (map snd ps). nesting t \<le> n'"
        by blast
      have c1: "collect (map (json_dumps n [?a] ?H) vs1) = Inr (map snd kvs1)"
        by (rule dumps_loads(2) [OF l1 small1])
           (simp_all add: h0 n2 hm' nq nth_append)
      have c2: "collect (map (json_dumps n [?a] ?H) vs2) = Inr (map snd kvs2)"
        by (rule dumps_loads(2) [OF l2 small2])
           (auto simp: h0 n2 hm' nth_append nth_list_update)
      have "collect (map (json_dumps n' [?p, ?a] ?H) vps) = Inr (map snd ps)"
        by (rule dumps_loads(2) [OF lq smallq])
           (auto simp: h0 n2 hm' nth_append nth_list_update)
      then have "list_all2 (entry_rel (json_dumps n' [?p, ?a] ?H)) ?eps (zip (map fst ps) (map snd ps))"
        by (rule entries_zip) (simp add: lenq)
      then have "list_all2 (entry_rel (json_dumps n' [?p, ?a] ?H)) ?eps ps"
        by (simp add: zip_map_fst_snd)
      then have "list_all2 (entry_rel (json_dumps n' [?p, ?a] ?H))
          (AList.delete ''key'' ?eps) (AList.delete ''key'' ps)"
        by (rule entries_delete)
      with at_p(1) pa have mid: "json_dumps n [?a] ?H (VRef ?p) = Inr ?X"
        unfolding n by (intro dumps_dict) simp_all
      from c1 have r1: "list_all2 (entry_rel (json_dumps n [?a] ?H))
          (zip (map fst kvs1) vs1) (zip (map fst kvs1) (map snd kvs1))"
        by (rule entries_zip) (simp add: len1)
      from l2 have len2: "length vs2 = length kvs2"
        by (auto dest: loads_items_length)
      from c2 have r2: "list_all2 (entry_rel (json_dumps n [?a] ?H))
          (zip (map fst kvs2) vs2) (zip (map fst kvs2) (map snd kvs2))"
        by (rule entries_zip) (simp add: len2)
      from r1 r2 mid have "list_all2 (entry_rel (json_dumps n [?a] ?H)) ?es
          (kvs1 @ (''properties'', ?X) # kvs2)"
        unfolding es by (auto simp: zip_map_fst_snd vp entry_rel_pair intro!: list_all2_appendI)
      with pa have "root_rel n ?a ?H (AList.update ''properties'' ?X kvs)"
        unfolding upd by (intro root_relI [where es = ?es]) (simp_all add: h0)
      with step pure v show ?thesis
        by blast
    qed
  qed
qed

text \<open>
  For every store and argument that serialise to a schema document \<open>d\<close>, the filter on
  the store returns, the filter on documents returns on \<open>d\<close>, and the value returned in
  the store after the call serialises to the document returned for \<open>d\<close>. The result can
  nest three containers deeper than the argument, hence the limit of the last reading.
\<close>

theorem filter_on_store_refines:
  assumes dumps: "json_dumps limit [] h schema_dict = Inr d" and doc: "schema_document d"
  shows "\<exists>h' v r. filter_schema_for_id_workflows_heap limit h schema_dict = Inr (h', v) \<and>
           filter_schema_for_id_workflows d = Inr r \<and>
           json_dumps (limit + 3) [] h' v = Inr r"
proof -
  from doc obtain kvs where d: "d = JObject kvs"
    by (auto simp: schema_document_def dest: is_objectE)
  let ?n = "limit + 2"
  from dumps have "nesting d \<le> limit"
    by (rule json_dumps_nesting)
  with d have "nesting (JObject kvs) \<le> limit"
    by simp
  from nesting_container(2) [OF this] obtain l where lim: "limit = Suc l"
    and "\<forall>t\<in>set (map snd kvs). nesting t \<le> l"
    by blast
  then have small: "\<forall>t\<in>set (map snd kvs). nesting t \<le> ?n"
    by fastforce
  from lim have three: "3 \<le> ?n"
    by simp
  obtain h0 v where loads: "json_loads (JObject kvs) h = (h0, v)"
    by (cases "json_loads (JObject kvs) h")
  from remove_key_property_heap_refines [OF loads doc [unfolded d] small]
  obtain a H1 kvs1 where v: "v = VRef a"
    and s1: "remove_key_property_heap h0 v = Inr H1"
    and p1: "remove_key_property (JObject kvs) = Inr (JObject kvs1)"
    and r1: "root_rel ?n a H1 kvs1"
    by blast
  from narrow_oneOf_heap_refines [OF r1 three] obtain H2 where
    s2: "narrow_oneOf_heap H1 (VRef a) = Inr H2" and r2: "root_rel ?n a H2 (with_oneOf kvs1)"
    by auto
  from update_description_heap_refines [OF r2] obtain H3 where
    s3: "update_description_heap H2 (VRef a) = Inr H3"
    and r3: "root_rel ?n a H3 (with_description (with_oneOf kvs1))"
    by blast
  from dumps loads s1 s2 s3 have "filter_schema_for_id_workflows_heap limit h schema_dict = Inr (H3, VRef a)"
    by (simp add: filter_schema_for_id_workflows_heap_def d v)
  moreover from p1 have "filter_schema_for_id_workflows d =
      Inr (JObject (with_description (with_oneOf kvs1)))"
    unfolding d by (rule filter_after_remove_key)
  moreover from r3 have "json_dumps (limit + 3) [] H3 (VRef a) =
      Inr (JObject (with_description (with_oneOf kvs1)))"
    using root_rel_dumps [OF r3] by (simp add: numeral_3_eq_3)
  ultimately show ?thesis
    by blast
qed

text \<open>
  The hypothesis on the serialisation is needed. The document \<^verbatim>\<open>{"a": []}\<close> nests two
  containers; under a limit of one \<^verbatim>\<open>json.dumps\<close> raises, and so does the call, while
  the function of documents returns.
\<close>

lemma copy_raises_past_limit:
  "filter_schema_for_id_workflows_heap 1 [PyList [], PyDict [(''a'', VRef 0)]] (VRef 1 :: int pyval) =
     Inl RecursionError \<and>
   filter_schema_for_id_workflows (JObject [(''a'', JArray [])] :: int json) =
     Inr (JObject [(''a'', JArray [])])"
  by (simp add: filter_schema_for_id_workflows_heap_def filter_schema_for_id_workflows_def
      remove_key_property_def narrow_oneOf_def update_description_def)

text \<open>
  The edits are gated on existence: on a schema document the result has a root key
  exactly when the input has it.
\<close>

lemma filter_keys_gated:
  assumes "schema_document d" and "filter_schema_for_id_workflows d = Inr r"
  shows "(member_of r k = None) = (member_of d k = None)"
  using assms
proof (cases d rule: filter_schema_cases)
  case (no_properties kvs)
  with assms(2) show ?thesis
    by (auto simp: map_of_with_oneOf map_of_with_description)
next
  case (no_key kvs ps)
  with assms(2) show ?thesis
    by (auto simp: map_of_with_oneOf map_of_with_description)
next
  case (key kvs ps)
  with assms(2) show ?thesis
    by (auto simp: map_of_with_oneOf map_of_with_description update_conv')
qed

subsection \<open>The claims about the filter\<close>



text \<open>
  Claim C2. On every schema document the filter returns a document on which a second
  run returns that same document: the filter is idempotent.
\<close>

theorem filter_idempotent:
  assumes "schema_document d"
  shows "\<exists>r. filter_schema_for_id_workflows d = Inr r \<and> filter_schema_for_id_workflows r = Inr r"
  using assms
proof (cases d rule: filter_schema_cases)
  case (no_properties kvs)
  have "filter_schema_for_id_workflows (JObject (with_description (with_oneOf kvs))) =
      Inr (JObject (with_description (with_oneOf kvs)))"
    using no_properties(2)
    by (intro filter_fixed_point) (simp_all add: map_of_with_oneOf map_of_with_description)
  with no_properties(3) show ?thesis by simp
next
  case (no_key kvs ps)
  have "filter_schema_for_id_workflows (JObject (with_description (with_oneOf kvs))) =
      Inr (JObject (with_description (with_oneOf kvs)))"
    using no_key(2,3)
    by (intro filter_fixed_point) (simp_all add: map_of_with_oneOf map_of_with_description)
  with no_key(4) show ?thesis by simp
next
  case (key kvs ps)
  let ?kvs1 = "AList.update ''properties'' (JObject (AList.delete ''key'' ps)) kvs"
  have "filter_schema_for_id_workflows (JObject (with_description (with_oneOf ?kvs1))) =
      Inr (JObject (with_description (with_oneOf ?kvs1)))"
    by (intro filter_fixed_point)
       (simp_all add: map_of_with_oneOf map_of_with_description update_conv' delete_conv')
  with key(4) show ?thesis by simp
qed

theorem filter_idempotent_witness:
  "schema_document (JObject [(''properties'', JObject [(''key'', JNull)]),
                             (''description'', JString ''x'')] :: int json) \<and>
   (\<exists>r. filter_schema_for_id_workflows
          (JObject [(''properties'', JObject [(''key'', JNull)]),
                    (''description'', JString ''x'')] :: int json) = Inr r \<and>
        filter_schema_for_id_workflows r = Inr r)"
  using filter_idempotent [of "JObject [(''properties'', JObject [(''key'', JNull)]),
                                        (''description'', JString ''x'')] :: int json"]
  by (simp add: schema_document_def)

text \<open>
  Claim C3. The scenario of the specification: the document with the \<open>key\<close> and \<open>id\<close>
  properties, both alternatives under \<open>oneOf\<close> and the plain description is mapped to
  the document with the \<open>id\<close> property only, the single ID-based alternative and the
  annotated description, the three root keys in their original order.
\<close>

theorem scenario_key_and_id:
  "filter_schema_for_id_workflows
     (JObject
        [(''properties'',
          JObject [(''key'', JObject [(''type'', JString ''string'')]),
                   (''id'', JObject [(''type'', JString ''string'')])]),
         (''oneOf'',
          JArray
            [JObject [(''required'',
                       JArray [JString ''key'', JString ''specVersion'', JString ''states''])],
             JObject [(''required'',
                       JArray [JString ''id'', JString ''specVersion'', JString ''states''])]]),
         (''description'', JString ''Serverless Workflow specification - workflow schema'')]) =
   Inr (JObject
        [(''properties'', JObject [(''id'', JObject [(''type'', JString ''string'')])]),
         (''oneOf'',
          JArray
            [JObject [(''required'',
                       JArray [JString ''id'', JString ''specVersion'', JString ''states''])]]),
         (''description'',
          JString ''Serverless Workflow specification - workflow schema (ID-based workflows only)'')])"
  by (simp add: filter_schema_for_id_workflows_def remove_key_property_def narrow_oneOf_def
      update_description_def id_variant_def id_description_def)

text \<open>
  Claim C4. On a schema document whose \<open>properties\<close> holds an entry \<open>key\<close>, the result's
  \<open>properties\<close> is a mapping without \<open>key\<close>. When \<open>properties\<close> is absent, or present
  without \<open>key\<close>, the removal step returns the document as it is, without an error,
  and the result's \<open>properties\<close> is the input's.
\<close>

theorem key_removal:
  assumes "schema_document d"
  shows "\<exists>r. filter_schema_for_id_workflows d = Inr r \<and>
           (\<forall>ps. member_of d ''properties'' = Some (JObject ps) \<and> map_of ps ''key'' \<noteq> None \<longrightarrow>
              (\<exists>ps'. member_of r ''properties'' = Some (JObject ps') \<and> map_of ps' ''key'' = None)) \<and>
           (member_of d ''properties'' = None \<longrightarrow>
              remove_key_property d = Inr d \<and> member_of r ''properties'' = None) \<and>
           (\<forall>ps. member_of d ''properties'' = Some (JObject ps) \<and> map_of ps ''key'' = None \<longrightarrow>
              remove_key_property d = Inr d \<and> member_of r ''properties'' = Some (JObject ps))"
  using assms
proof (cases d rule: filter_schema_cases)
  case (no_properties kvs)
  then show ?thesis
    by (simp add: map_of_with_oneOf map_of_with_description remove_key_property_absent)
next
  case (no_key kvs ps)
  then show ?thesis
    by (simp add: map_of_with_oneOf map_of_with_description remove_key_property_no_key)
next
  case (key kvs ps)
  then show ?thesis
    by (auto simp: map_of_with_oneOf map_of_with_description update_conv' delete_conv')
qed

theorem key_removal_witness:
  "schema_document (JObject [(''properties'', JObject [(''key'', JNull), (''id'', JNull)])] :: int json) \<and>
   member_of (JObject [(''properties'', JObject [(''key'', JNull), (''id'', JNull)])] :: int json)
     ''properties'' = Some (JObject [(''key'', JNull), (''id'', JNull)]) \<and>
   map_of [(''key'', JNull :: int json), (''id'', JNull)] ''key'' \<noteq> None \<and>
   (\<exists>r ps'. filter_schema_for_id_workflows
          (JObject [(''properties'', JObject [(''key'', JNull), (''id'', JNull)])] :: int json) = Inr r \<and>
        member_of r ''properties'' = Some (JObject ps') \<and> map_of ps' ''key'' = None) \<and>
   schema_document (JObject [(''title'', JString ''t'')] :: int json) \<and>
   member_of (JObject [(''title'', JString ''t'')] :: int json) ''properties'' = None \<and>
   remove_key_property (JObject [(''title'', JString ''t'')] :: int json) =
     Inr (JObject [(''title'', JString ''t'')]) \<and>
   schema_document (JObject [(''properties'', JObject [(''id'', JNull)])] :: int json) \<and>
   member_of (JObject [(''properties'', JObject [(''id'', JNull)])] :: int json) ''properties'' =
     Some (JObject [(''id'', JNull)]) \<and>
   map_of [(''id'', JNull :: int json)] ''key'' = None \<and>
   remove_key_property (JObject [(''properties'', JObject [(''id'', JNull)])] :: int json) =
     Inr (JObject [(''properties'', JObject [(''id'', JNull)])])"
  using key_removal [of "JObject [(''properties'', JObject [(''key'', JNull), (''id'', JNull)])] :: int json"]
    key_removal [of "JObject [(''title'', JString ''t'')] :: int json"]
    key_removal [of "JObject [(''properties'', JObject [(''id'', JNull)])] :: int json"]
  by (auto simp: schema_document_def)

text \<open>
  Claim C6. On a schema document the result is an object with the same root keys in the
  same order; every root entry other than \<open>properties\<close>, \<open>oneOf\<close> and \<open>description\<close>
  is the input's entry at the same position; the result's \<open>properties\<close> is the
  input's without its \<open>key\<close> entries, all others kept in order; and a document that has
  neither \<open>properties.key\<close> nor \<open>oneOf\<close> nor \<open>description\<close> is returned as it is.
\<close>

theorem filter_frame:
  assumes "schema_document d"
  shows "\<exists>kvs kvs'. d = JObject kvs \<and> filter_schema_for_id_workflows d = Inr (JObject kvs') \<and>
           map fst kvs' = map fst kvs \<and>
           (\<forall>i<length kvs.
              fst (kvs ! i) \<notin> {''properties'', ''oneOf'', ''description''} \<longrightarrow> kvs' ! i = kvs ! i) \<and>
           (\<forall>ps. map_of kvs ''properties'' = Some (JObject ps) \<longrightarrow>
              map_of kvs' ''properties'' = Some (JObject (filter (\<lambda>e. fst e \<noteq> ''key'') ps))) \<and>
           ((map_of kvs ''properties'' = None \<or>
               (\<exists>ps. map_of kvs ''properties'' = Some (JObject ps) \<and> map_of ps ''key'' = None)) \<and>
             map_of kvs ''oneOf'' = None \<and> map_of kvs ''description'' = None \<longrightarrow>
             filter_schema_for_id_workflows d = Inr d)"
  using assms
proof (cases d rule: filter_schema_cases)
  case (no_properties kvs)
  let ?kvs' = "with_description (with_oneOf kvs)"
  have "map fst ?kvs' = map fst kvs"
    by (simp add: with_oneOf_keys with_description_keys)
  moreover have "\<forall>i<length kvs.
      fst (kvs ! i) \<notin> {''properties'', ''oneOf'', ''description''} \<longrightarrow> ?kvs' ! i = kvs ! i"
    by (simp add: edited_nth)
  moreover have "map_of kvs ''oneOf'' = None \<and> map_of kvs ''description'' = None \<longrightarrow> ?kvs' = kvs"
    by (simp add: with_oneOf_def with_description_def)
  ultimately show ?thesis
    using no_properties by auto
next
  case (no_key kvs ps)
  let ?kvs' = "with_description (with_oneOf kvs)"
  have "map fst ?kvs' = map fst kvs"
    by (simp add: with_oneOf_keys with_description_keys)
  moreover have "\<forall>i<length kvs.
      fst (kvs ! i) \<notin> {''properties'', ''oneOf'', ''description''} \<longrightarrow> ?kvs' ! i = kvs ! i"
    by (simp add: edited_nth)
  moreover have "map_of kvs ''oneOf'' = None \<and> map_of kvs ''description'' = None \<longrightarrow> ?kvs' = kvs"
    by (simp add: with_oneOf_def with_description_def)
  moreover have "filter (\<lambda>e. fst e \<noteq> ''key'') ps = ps"
    using no_key(3) by (force simp: filter_id_conv map_of_eq_None_iff)
  moreover have "map_of ?kvs' ''properties'' = Some (JObject ps)"
    using no_key(2) by (simp add: map_of_with_oneOf map_of_with_description)
  ultimately show ?thesis
    using no_key by auto
next
  case (key kvs ps)
  let ?kvs1 = "AList.update ''properties'' (JObject (AList.delete ''key'' ps)) kvs"
  let ?kvs' = "with_description (with_oneOf ?kvs1)"
  have keys1: "map fst ?kvs1 = map fst kvs"
    using key(2) by (simp add: update_keys_present)
  then have len1: "length ?kvs1 = length kvs"
    by (metis length_map)
  have "map fst ?kvs' = map fst kvs"
    by (simp add: with_oneOf_keys with_description_keys keys1)
  moreover have "\<forall>i<length kvs.
      fst (kvs ! i) \<notin> {''properties'', ''oneOf'', ''description''} \<longrightarrow> ?kvs' ! i = kvs ! i"
  proof (intro allI impI)
    fix i
    assume i: "i < length kvs"
      and k: "fst (kvs ! i) \<notin> {''properties'', ''oneOf'', ''description''}"
    then have same: "?kvs1 ! i = kvs ! i"
      by (simp add: update_nth_other)
    with i k len1 have "?kvs' ! i = ?kvs1 ! i"
      by (intro edited_nth) simp_all
    with same show "?kvs' ! i = kvs ! i" by simp
  qed
  moreover have "AList.delete ''key'' ps = filter (\<lambda>e. fst e \<noteq> ''key'') ps"
    by (induction ps) auto
  moreover have "map_of ?kvs' ''properties'' = Some (JObject (AList.delete ''key'' ps))"
    by (simp add: map_of_with_oneOf map_of_with_description update_conv')
  ultimately show ?thesis
    using key by auto
qed

theorem filter_frame_witness:
  "schema_document
     (JObject [(''definitions'', JObject [(''a'', JNumber 1)]),
               (''properties'', JObject [(''id'', JNull)])] :: int json) \<and>
   filter_schema_for_id_workflows
     (JObject [(''definitions'', JObject [(''a'', JNumber 1)]),
               (''properties'', JObject [(''id'', JNull)])] :: int json) =
   Inr (JObject [(''definitions'', JObject [(''a'', JNumber 1)]),
                 (''properties'', JObject [(''id'', JNull)])])"
  using filter_frame [of "JObject [(''definitions'', JObject [(''a'', JNumber 1)]),
                                   (''properties'', JObject [(''id'', JNull)])] :: int json"]
  by (auto simp: schema_document_def)

text \<open>
  Claim C9, as the code has it. A well-formed JSON value whose \<open>properties\<close> is
  \<^verbatim>\<open>null\<close> makes the filter raise: \<^verbatim>\<open>"key" in None\<close> is a \<^verbatim>\<open>TypeError\<close>.
\<close>

theorem filter_raises_on_null_properties:
  "filter_schema_for_id_workflows (JObject [(''properties'', JNull)] :: int json) = Inl TypeError"
  by (simp add: filter_schema_for_id_workflows_def remove_key_property_def)

text \<open>
  Claim C9, amended. The call of the source, copy included, on the store: for every
  argument that \<^verbatim>\<open>json.dumps\<close> serialises within the recursion limit, without a
  circular reference, to a schema document (the root an object, \<open>properties\<close> a mapping
  when present), the call returns and raises nothing, whichever of the optional keys are
  missing; the value it returns serialises to a document; and the edits are gated on
  existence: that document has a root key exactly when the argument's document has it.
\<close>

theorem filter_total_on_schema_documents:
  assumes "json_dumps limit [] h schema_dict = Inr d" and "schema_document d"
  shows "\<exists>h' v r. filter_schema_for_id_workflows_heap limit h schema_dict = Inr (h', v) \<and>
           json_dumps (limit + 3) [] h' v = Inr r \<and>
           (\<forall>k. (member_of r k = None) = (member_of d k = None))"
proof -
  from filter_on_store_refines [OF assms] obtain h' v r where
    returns: "filter_schema_for_id_workflows_heap limit h schema_dict = Inr (h', v)"
    and r: "filter_schema_for_id_workflows d = Inr r"
    and reads: "json_dumps (limit + 3) [] h' v = Inr r"
    by blast
  from assms(2) r have "\<forall>k. (member_of r k = None) = (member_of d k = None)"
    by (simp add: filter_keys_gated)
  with returns reads show ?thesis
    by blast
qed

theorem filter_total_on_schema_documents_witness:
  "json_dumps 2 []
     [PyDict [(''id'', VNone)],
      PyDict [(''properties'', VRef 0), (''title'', VStr ''t'')]]
     (VRef 1 :: int pyval) =
   Inr (JObject [(''properties'', JObject [(''id'', JNull)]), (''title'', JString ''t'')]) \<and>
   schema_document
     (JObject [(''properties'', JObject [(''id'', JNull)]), (''title'', JString ''t'')] :: int json) \<and>
   (\<exists>h' v r. filter_schema_for_id_workflows_heap 2
        [PyDict [(''id'', VNone)],
         PyDict [(''properties'', VRef 0), (''title'', VStr ''t'')]]
        (VRef 1 :: int pyval) = Inr (h', v) \<and>
      json_dumps 5 [] h' v = Inr r \<and>
      member_of r ''properties'' \<noteq> None \<and> member_of r ''title'' \<noteq> None \<and>
      member_of r ''oneOf'' = None \<and> member_of r ''description'' = None)"
proof -
  let ?h = "[PyDict [(''id'', VNone)],
             PyDict [(''properties'', VRef 0), (''title'', VStr ''t'')]] :: int heap"
  let ?d = "JObject [(''properties'', JObject [(''id'', JNull)]), (''title'', JString ''t'')] :: int json"
  have dumps: "json_dumps 2 [] ?h (VRef 1) = Inr ?d"
    by (simp add: eval_nat_numeral)
  have doc: "schema_document ?d"
    by (simp add: schema_document_def)
  from filter_total_on_schema_documents [OF dumps doc] obtain h' v r where
    "filter_schema_for_id_workflows_heap 2 ?h (VRef 1) = Inr (h', v)"
    "json_dumps (2 + 3) [] h' v = Inr r"
    "\<forall>k. (member_of r k = None) = (member_of ?d k = None)"
    by blast
  then have "filter_schema_for_id_workflows_heap 2 ?h (VRef 1) = Inr (h', v) \<and>
      json_dumps 5 [] h' v = Inr r \<and>
      member_of r ''properties'' \<noteq> None \<and> member_of r ''title'' \<noteq> None \<and>
      member_of r ''oneOf'' = None \<and> member_of r ''description'' = None"
    by simp
  with dumps doc show ?thesis
    by blast
qed

subsection \<open>The claim about the argument\<close>

text \<open>
  Claim C5. The call returns on every argument that serialises to a schema document.
  Whenever the call returns, on any argument, every object that was in the store before
  the call is in the store after it, unchanged; the argument serialises to the same
  document before and after the call; the returned value is no object of the old store,
  and no object made by the call refers to one: the result is an independent copy.
\<close>

theorem filter_does_not_mutate_argument:
  "(json_dumps limit [] h schema_dict = Inr d \<and> schema_document d \<longrightarrow>
      (\<exists>h1 v. filter_schema_for_id_workflows_heap limit h schema_dict = Inr (h1, v))) \<and>
   (filter_schema_for_id_workflows_heap limit h schema_dict = Inr (h', filtered_schema) \<longrightarrow>
      take (length h) h' = h \<and>
      (\<exists>d. json_dumps limit [] h schema_dict = Inr d \<and>
           json_dumps limit [] h' schema_dict = Inr d) \<and>
      fresh_val (length h) filtered_schema \<and>
      list_all (fresh_obj (length h)) (drop (length h) h'))"
proof (intro conjI impI)
  assume "json_dumps limit [] h schema_dict = Inr d \<and> schema_document d"
  then show "\<exists>h1 v. filter_schema_for_id_workflows_heap limit h schema_dict = Inr (h1, v)"
    using filter_on_store_refines by blast
next
  assume returns:
    "filter_schema_for_id_workflows_heap limit h schema_dict = Inr (h', filtered_schema)"
  then have ext: "store_extension h h'" and fresh: "fresh_val (length h) filtered_schema"
    by (simp_all add: filter_heap_extension)
  from returns obtain d where d: "json_dumps limit [] h schema_dict = Inr d"
    by (auto simp: filter_schema_for_id_workflows_heap_def split: sum.splits)
  from ext d have d': "json_dumps limit [] h' schema_dict = Inr d"
    by (rule json_dumps_extension)
  from ext show "take (length h) h' = h"
    by (simp add: store_extension_def)
  from d d' show "\<exists>d. json_dumps limit [] h schema_dict = Inr d \<and>
      json_dumps limit [] h' schema_dict = Inr d"
    by blast
  from fresh show "fresh_val (length h) filtered_schema" .
  from ext show "list_all (fresh_obj (length h)) (drop (length h) h')"
    by (simp add: store_extension_def)
qed

theorem filter_does_not_mutate_argument_witness:
  "json_dumps 3 []
     [PyDict [(''key'', VNone), (''id'', VNumber 1)],
      PyList [VNone],
      PyDict [(''properties'', VRef 0), (''oneOf'', VRef 1), (''description'', VStr ''d'')]]
     (VRef 2 :: int pyval) =
   Inr (JObject [(''properties'', JObject [(''key'', JNull), (''id'', JNumber 1)]),
                 (''oneOf'', JArray [JNull]),
                 (''description'', JString ''d'')]) \<and>
   schema_document
     (JObject [(''properties'', JObject [(''key'', JNull), (''id'', JNumber 1)]),
               (''oneOf'', JArray [JNull]),
               (''description'', JString ''d'')] :: int json) \<and>
   filter_schema_for_id_workflows_heap 3
     [PyDict [(''key'', VNone), (''id'', VNumber 1)],
      PyList [VNone],
      PyDict [(''properties'', VRef 0), (''oneOf'', VRef 1), (''description'', VStr ''d'')]]
     (VRef 2 :: int pyval) =
   Inr ([PyDict [(''key'', VNone), (''id'', VNumber 1)],
         PyList [VNone],
         PyDict [(''properties'', VRef 0), (''oneOf'', VRef 1), (''description'', VStr ''d'')],
         PyDict [(''id'', VNumber 1)],
         PyList [VNone],
         PyDict [(''properties'', VRef 3), (''oneOf'', VRef 8),
                 (''description'',
                  VStr ''Serverless Workflow specification - workflow schema (ID-based workflows only)'')],
         PyList [VStr ''id'', VStr ''specVersion'', VStr ''states''],
         PyDict [(''required'', VRef 6)],
         PyList [VRef 7]],
        VRef 5) \<and>
   json_dumps 3 []
     [PyDict [(''key'', VNone), (''id'', VNumber 1)],
      PyList [VNone],
      PyDict [(''properties'', VRef 0), (''oneOf'', VRef 1), (''description'', VStr ''d'')],
      PyDict [(''id'', VNumber 1)],
      PyList [VNone],
      PyDict [(''properties'', VRef 3), (''oneOf'', VRef 8),
              (''description'',
               VStr ''Serverless Workflow specification - workflow schema (ID-based workflows only)'')],
      PyList [VStr ''id'', VStr ''specVersion'', VStr ''states''],
      PyDict [(''required'', VRef 6)],
      PyList [VRef 7]]
     (VRef 2 :: int pyval) =
   Inr (JObject [(''properties'', JObject [(''key'', JNull), (''id'', JNumber 1)]),
                 (''oneOf'', JArray [JNull]),
                 (''description'', JString ''d'')])"
  using filter_does_not_mutate_argument
    [of 3 "[PyDict [(''key'', VNone), (''id'', VNumber 1)],
            PyList [VNone],
            PyDict [(''properties'', VRef 0), (''oneOf'', VRef 1), (''description'', VStr ''d'')]]"
        "VRef 2 :: int pyval"
        "JObject [(''properties'', JObject [(''key'', JNull), (''id'', JNumber 1)]),
                  (''oneOf'', JArray [JNull]),
                  (''description'', JString ''d'')]"
        "[PyDict [(''key'', VNone), (''id'', VNumber 1)],
          PyList [VNone],
          PyDict [(''properties'', VRef 0), (''oneOf'', VRef 1), (''description'', VStr ''d'')],
          PyDict [(''id'', VNumber 1)],
          PyList [VNone],
          PyDict [(''properties'', VRef 3), (''oneOf'', VRef 8),
                  (''description'',
                   VStr ''Serverless Workflow specification - workflow schema (ID-based workflows only)'')],
          PyList [VStr ''id'', VStr ''specVersion'', VStr ''states''],
          PyDict [(''required'', VRef 6)],
          PyList [VRef 7]]"
        "VRef 5"]
  by (simp add: filter_schema_for_id_workflows_heap_def remove_key_property_heap_def
      narrow_oneOf_heap_def update_description_heap_def alloc_def schema_document_def
      eval_nat_numeral)

subsection \<open>The claims about the statistics\<close>

text \<open>
  Claim C7. The token estimate of a string is the floor of a quarter of its length, and
  the estimate of the empty string is 0.
\<close>

theorem count_tokens_estimate_floor:
  "count_tokens_estimate s = \<lfloor>real (length s) / 4\<rfloor> \<and> count_tokens_estimate [] = 0"
proof -
  have "\<lfloor>real (length s) / 4\<rfloor> = \<lfloor>real_of_int (int (length s)) / real_of_int 4\<rfloor>"
    by simp
  also have "\<dots> = int (length s) div 4"
    by (rule floor_divide_of_int_eq)
  finally show ?thesis
    by (simp add: count_tokens_estimate_def)
qed

lemma count_tokens_estimate_nonneg: "0 \<le> count_tokens_estimate s"
  by (simp add: count_tokens_estimate_def)

lemma percent_if_positive_eq:
  "percent_if_positive fdiv fmul part whole =
     Inr (if 0 < whole then PyFloat (fmul (fdiv part whole) 100) else PyInt 0)"
  by (simp add: percent_if_positive_def py_truediv_def)

lemma reduction_statistics_eq:
  "reduction_statistics fdiv fmul s t =
     Inr \<lparr>original_tokens = count_tokens_estimate s,
          filtered_tokens = count_tokens_estimate t,
          reduction = count_tokens_estimate s - count_tokens_estimate t,
          reduction_percent =
            (if 0 < count_tokens_estimate s
             then PyFloat (fmul (fdiv (count_tokens_estimate s - count_tokens_estimate t)
                                      (count_tokens_estimate s)) 100)
             else PyInt 0),
          original_size = int (length s),
          filtered_size = int (length t),
          size_reduction = int (length s) - int (length t),
          size_reduction_percent =
            (if 0 < length s
             then PyFloat (fmul (fdiv (int (length s) - int (length t)) (int (length s))) 100)
             else PyInt 0)\<rparr>"
  by (simp add: reduction_statistics_def percent_if_positive_eq Let_def)

text \<open>
  Claim C8. The statistics never raise. For the token estimates and for the byte sizes,
  the percentage is the integer 0 when the original measure is 0 and otherwise the float
  \<^verbatim>\<open>(reduction / original) * 100\<close>; an empty original serialisation gives 0 for both
  percentages, whatever the filtered serialisation is.
\<close>

theorem division_guard:
  "(\<exists>r. reduction_statistics fdiv fmul s t = Inr r \<and>
        original_tokens r = count_tokens_estimate s \<and>
        reduction r = count_tokens_estimate s - count_tokens_estimate t \<and>
        original_size r = int (length s) \<and>
        size_reduction r = int (length s) - int (length t) \<and>
        0 \<le> original_tokens r \<and> 0 \<le> original_size r \<and>
        reduction_percent r =
          (if original_tokens r = 0 then PyInt 0
           else PyFloat (fmul (fdiv (reduction r) (original_tokens r)) 100)) \<and>
        size_reduction_percent r =
          (if original_size r = 0 then PyInt 0
           else PyFloat (fmul (fdiv (size_reduction r) (original_size r)) 100))) \<and>
   (\<exists>r. reduction_statistics fdiv fmul [] t = Inr r \<and>
        reduction_percent r = PyInt 0 \<and> size_reduction_percent r = PyInt 0)"
proof -
  have "0 < count_tokens_estimate s \<longleftrightarrow> count_tokens_estimate s \<noteq> 0"
    using count_tokens_estimate_nonneg [of s] by linarith
  moreover have "count_tokens_estimate [] = 0"
    by (simp add: count_tokens_estimate_def)
  ultimately show ?thesis
    by (simp add: reduction_statistics_eq count_tokens_estimate_nonneg)
qed

text \<open>
  Claim C10. The guard of the token percentage tests the token estimate, not the
  length: an original serialisation of one to three characters has estimate 0, so its
  token percentage is the integer 0, while its size percentage is still the float
  computed from the non-zero length.
\<close>

theorem token_percent_zero_below_four:
  assumes "1 \<le> length s" and "length s \<le> 3"
  shows "\<exists>r. reduction_statistics fdiv fmul s t = Inr r \<and>
           original_tokens r = 0 \<and> reduction_percent r = PyInt 0 \<and>
           original_size r = int (length s) \<and> 0 < original_size r \<and>
           size_reduction_percent r =
             PyFloat (fmul (fdiv (int (length s) - int (length t)) (int (length s))) 100)"
proof -
  from assms have "count_tokens_estimate s = 0"
    by (simp add: count_tokens_estimate_def)
  moreover from assms have "s \<noteq> []"
    by auto
  ultimately show ?thesis
    by (simp add: reduction_statistics_eq)
qed

theorem token_percent_zero_below_four_witness:
  "1 \<le> length ''{}'' \<and> length ''{}'' \<le> 3 \<and>
   (\<exists>r. reduction_statistics (\<lambda>a b. real_of_int a / real_of_int b) (\<lambda>x n. x * real_of_int n)
          ''{}'' ''{}'' = Inr r \<and>
        reduction_percent r = PyInt 0 \<and> size_reduction_percent r = PyFloat 0)"
  using token_percent_zero_below_four
    [of "''{}''" "\<lambda>a b. real_of_int a / real_of_int b" "\<lambda>x n. x * real_of_int n" "''{}''"]
  by auto

end
